theory Spec2Isabelle
  imports Complex_Main
begin

section \<open>Channel history pagination and bulk purge (dis\_snek/models/discord/channel.py)\<close>

text \<open>
  The development embeds \<^verbatim>\<open>ChannelHistory.fetch\<close> and the methods
  \<^verbatim>\<open>get_messages\<close>, \<^verbatim>\<open>delete_messages\<close>, \<^verbatim>\<open>delete_message\<close> and
  \<^verbatim>\<open>purge\<close> of \<^verbatim>\<open>MessageableMixin\<close>.  Every coroutine is run to completion in
  program order (the source awaits each call before the next), so \<^verbatim>\<open>await\<close> is plain
  sequencing.  The HTTP client is the only effect: the state threaded through every
  function is the list of requests sent so far, oldest first, and the client's answer to
  a request may depend on that whole list.  A raised exception is a value \<open>Inl e\<close>.
\<close>

subsection \<open>Data\<close>

text \<open>
  Snowflake identifiers are Python integers.  An optional argument (\<^verbatim>\<open>None\<close> or the
  \<^verbatim>\<open>MISSING\<close> sentinel, both falsy) is \<open>None\<close>.
\<close>

type_synonym snowflake = int

text \<open>
  Modelled from the spec: the enum \<^verbatim>\<open>MessageFlags\<close> of \<^verbatim>\<open>.enums\<close>, of which the
  source names the member \<^verbatim>\<open>LOADING\<close> only (the flag of a "loading" placeholder
  message); \<open>Flag n\<close> stands for any other member.
\<close>

datatype MessageFlags = LOADING | Flag nat

text \<open>The attributes of a message that the source reads: \<^verbatim>\<open>id\<close>, \<^verbatim>\<open>author.id\<close> and \<^verbatim>\<open>flags\<close>.\<close>

record Message =
  message_id :: snowflake
  author_id :: snowflake
  flags :: "MessageFlags set"

text \<open>
  \<^verbatim>\<open>ValueError\<close> is raised by \<^verbatim>\<open>get_messages\<close>; \<open>HTTPError k\<close> is the exception number
  \<open>k\<close> raised inside the HTTP client.
\<close>

datatype error = ValueError string | HTTPError nat

text \<open>
  The three operations of \<^verbatim>\<open>self._client.http\<close> that the source calls, with their
  arguments in the source's order: \<^verbatim>\<open>get_channel_messages(channel_id, limit, around, before, after)\<close>,
  \<^verbatim>\<open>delete_message(channel_id, message_id, reason)\<close> and
  \<^verbatim>\<open>bulk_delete_messages(channel_id, message_ids, reason)\<close>.
\<close>

datatype http_call =
    Get_channel_messages snowflake int "snowflake option" "snowflake option" "snowflake option"
  | Delete_message snowflake snowflake "string option"
  | Bulk_delete_messages snowflake "snowflake list" "string option"

text \<open>
  The channel object \<^verbatim>\<open>self\<close>: its \<^verbatim>\<open>id\<close>, and of \<^verbatim>\<open>self._client\<close> the HTTP client
  (its answer to a request, given the requests answered before: an exception number or
  the raw records), the cache's \<^verbatim>\<open>place_message_data\<close> and \<^verbatim>\<open>user.id\<close>.
\<close>

record 'r MessageableMixin =
  self_id :: snowflake
  client_http :: "http_call list \<Rightarrow> http_call \<Rightarrow> nat + 'r list"
  cache_place_message_data :: "'r \<Rightarrow> Message"
  client_user_id :: snowflake

text \<open>
  The iterator object.  The fields \<^verbatim>\<open>before\<close>, \<^verbatim>\<open>after\<close> and \<^verbatim>\<open>around\<close> are set by
  \<^verbatim>\<open>ChannelHistory.__init__\<close>.

  Modelled from the spec: the fields of the base class \<^verbatim>\<open>AsyncIterator\<close>
  (\<^verbatim>\<open>dis_snek.models.snek\<close>), which the source reads and writes as \<^verbatim>\<open>self._limit\<close>,
  \<^verbatim>\<open>self.last\<close> and \<^verbatim>\<open>self.get_limit\<close>.  \<open>h_limit\<close> is the overall limit (\<open>0\<close>:
  unbounded), \<open>h_retrieved\<close> the number of messages handed out so far (the spec's
  remaining limit is their difference), \<open>h_queue\<close> the internal buffer, and \<open>h_last\<close>
  is \<^verbatim>\<open>self.last.id\<close>: the anchor, \<open>None\<close> while \<^verbatim>\<open>self.last\<close> is still unset (falsy).
\<close>

record ChannelHistory =
  h_before :: "snowflake option"
  h_after :: "snowflake option"
  h_around :: "snowflake option"
  h_limit :: int
  h_last :: "snowflake option"
  h_queue :: "Message list"
  h_retrieved :: nat

subsection \<open>Helpers\<close>

text \<open>Python truthiness of an optional snowflake: \<^verbatim>\<open>None\<close>, \<^verbatim>\<open>MISSING\<close> and \<^verbatim>\<open>0\<close> are falsy.\<close>

definition truthy :: "snowflake option \<Rightarrow> bool" where
  "truthy x = (case x of None \<Rightarrow> False | Some v \<Rightarrow> v \<noteq> 0)"

text \<open>
  Modelled from the spec: \<^verbatim>\<open>to_snowflake\<close> of \<^verbatim>\<open>.snowflake\<close>, which turns a message or an
  identifier into the identifier; identifiers are integers here, which it returns as they are.
\<close>

definition to_snowflake :: "snowflake \<Rightarrow> snowflake" where
  "to_snowflake x = x"

text \<open>One call of the HTTP client: the request is appended to the list of requests sent, an exception of the client is raised.\<close>

definition request ::
  "'r MessageableMixin \<Rightarrow> http_call list \<Rightarrow> http_call \<Rightarrow> (error + 'r list) \<times> http_call list" where
  "request self sent c =
     (case client_http self sent c of
        Inl k \<Rightarrow> (Inl (HTTPError k), sent @ [c])
      | Inr d \<Rightarrow> (Inr d, sent @ [c]))"

subsection \<open>\<^verbatim>\<open>MessageableMixin.get_messages\<close>, \<^verbatim>\<open>delete_message\<close>, \<^verbatim>\<open>delete_messages\<close>\<close>

text \<open>
  \<^verbatim>\<open>get_messages\<close>.  Besides its result and the requests sent, the function gives its
  accesses to the cache: the raw records it hands to
  \<^verbatim>\<open>self._client.cache.place_message_data\<close>, in the order of the list comprehension.
  A call that raises hands over none.
\<close>

definition get_messages ::
  "'r MessageableMixin \<Rightarrow> http_call list \<Rightarrow> int \<Rightarrow> snowflake option \<Rightarrow> snowflake option \<Rightarrow>
     snowflake option \<Rightarrow> (error + Message list) \<times> http_call list \<times> 'r list" where
  "get_messages self sent limit around before after =
     (if limit > 100
      then (Inl (ValueError ''You cannot fetch more than 100 messages at once.''), sent, [])
      else
        let around' = (if truthy around then map_option to_snowflake around else around);
            before' = (if \<not> truthy around \<and> truthy before then map_option to_snowflake before else before);
            after' = (if \<not> truthy around \<and> \<not> truthy before \<and> truthy after
                      then map_option to_snowflake after else after)
        in case request self sent (Get_channel_messages (self_id self) limit around' before' after') of
             (Inl e, sent') \<Rightarrow> (Inl e, sent', [])
           | (Inr messages_data, sent') \<Rightarrow>
               (Inr (map (cache_place_message_data self) messages_data), sent', messages_data))"

definition delete_message ::
  "'r MessageableMixin \<Rightarrow> http_call list \<Rightarrow> snowflake \<Rightarrow> string option \<Rightarrow> (error + unit) \<times> http_call list" where
  "delete_message self sent message reason =
     (case request self sent (Delete_message (self_id self) (to_snowflake message) reason) of
        (Inl e, sent') \<Rightarrow> (Inl e, sent')
      | (Inr _, sent') \<Rightarrow> (Inr (), sent'))"

definition delete_messages ::
  "'r MessageableMixin \<Rightarrow> http_call list \<Rightarrow> snowflake list \<Rightarrow> string option \<Rightarrow> (error + unit) \<times> http_call list" where
  "delete_messages self sent messages reason =
     (let message_ids = map to_snowflake messages
      in if length message_ids = 1 then delete_message self sent (hd message_ids) reason
         else (case request self sent (Bulk_delete_messages (self_id self) message_ids reason) of
                 (Inl e, sent') \<Rightarrow> (Inl e, sent')
               | (Inr _, sent') \<Rightarrow> (Inr (), sent')))"

subsection \<open>\<^verbatim>\<open>ChannelHistory\<close>\<close>

text \<open>
  \<^verbatim>\<open>ChannelHistory.__init__\<close> (reached through \<^verbatim>\<open>MessageableMixin.history\<close>): the three
  anchors are stored as given.  Modelled from the spec: \<^verbatim>\<open>super().__init__(limit)\<close> stores
  the limit and starts with no anchor, an empty buffer and nothing retrieved.
\<close>

definition history ::
  "int \<Rightarrow> snowflake option \<Rightarrow> snowflake option \<Rightarrow> snowflake option \<Rightarrow> ChannelHistory" where
  "history limit before after around =
     \<lparr>h_before = before, h_after = after, h_around = around, h_limit = limit,
      h_last = None, h_queue = [], h_retrieved = 0\<rparr>"

text \<open>
  Modelled from the spec: \<^verbatim>\<open>AsyncIterator.get_limit\<close>, the page size of the next fetch:
  \<open>min(100, remaining_limit)\<close> if the remaining limit is positive, else \<open>100\<close>; a
  limit of \<open>0\<close> is unbounded.
\<close>

definition get_limit :: "ChannelHistory \<Rightarrow> int" where
  "get_limit it =
     (let remaining_limit = h_limit it - int (h_retrieved it)
      in if h_limit it \<noteq> 0 \<and> 0 < remaining_limit then min 100 remaining_limit else 100)"

text \<open>
  \<^verbatim>\<open>ChannelHistory.fetch\<close>.  Python's \<^verbatim>\<open>list.sort\<close> is stable, also with
  \<^verbatim>\<open>reverse=True\<close>.  The iterator keeps the messages of the page; it has no further use
  for the list of raw records that went to the cache (\<open>placed\<close>).
\<close>

definition fetch ::
  "'r MessageableMixin \<Rightarrow> http_call list \<Rightarrow> ChannelHistory \<Rightarrow>
     (error + Message list) \<times> ChannelHistory \<times> http_call list" where
  "fetch self sent it =
     (if truthy (h_after it) then
        (let it1 = (if h_last it = None then it\<lparr>h_last := h_after it\<rparr> else it)
         in case get_messages self sent (get_limit it1) None None (h_last it1) of
              (Inl e, sent', placed) \<Rightarrow> (Inl e, it1, sent')
            | (Inr messages, sent', placed) \<Rightarrow> (Inr (sort_key message_id messages), it1, sent'))
      else if truthy (h_around it) then
        (case get_messages self sent (get_limit it) (h_around it) None None of
           (Inl e, sent', placed) \<Rightarrow> (Inl e, it, sent')
         | (Inr messages, sent', placed) \<Rightarrow> (Inr messages, it\<lparr>h_limit := 1\<rparr>, sent'))
      else
        (let it1 = (if truthy (h_before it) \<and> h_last it = None then it\<lparr>h_last := h_before it\<rparr> else it)
         in case get_messages self sent (get_limit it1) None (h_last it1) None of
              (Inl e, sent', placed) \<Rightarrow> (Inl e, it1, sent')
            | (Inr messages, sent', placed) \<Rightarrow>
                (Inr (sort_key (\<lambda>x. - message_id x) messages), it1, sent')))"

text \<open>
  Modelled from the spec: the lazy-sequence driver \<^verbatim>\<open>AsyncIterator.__anext__\<close>.  A
  buffered message is handed out first; with an empty buffer the driver fetches a page
  unless the limit is reached (\<open>continue\<close>); an empty page ends the sequence (\<open>None\<close>).
  Each message handed out becomes \<^verbatim>\<open>self.last\<close> and is counted.
\<close>

definition continue :: "ChannelHistory \<Rightarrow> bool" where
  "continue it = (h_limit it = 0 \<or> int (h_retrieved it) < h_limit it)"

definition hand_out :: "Message \<Rightarrow> Message list \<Rightarrow> ChannelHistory \<Rightarrow> ChannelHistory" where
  "hand_out m rest it =
     it\<lparr>h_queue := rest, h_last := Some (message_id m), h_retrieved := Suc (h_retrieved it)\<rparr>"

definition anext ::
  "'r MessageableMixin \<Rightarrow> http_call list \<Rightarrow> ChannelHistory \<Rightarrow>
     (error + Message option) \<times> ChannelHistory \<times> http_call list" where
  "anext self sent it =
     (case h_queue it of
        m # rest \<Rightarrow> (Inr (Some m), hand_out m rest it, sent)
      | [] \<Rightarrow>
          if continue it then
            (case fetch self sent it of
               (Inl e, it', sent') \<Rightarrow> (Inl e, it', sent')
             | (Inr [], it', sent') \<Rightarrow> (Inr None, it', sent')
             | (Inr (m # rest), it', sent') \<Rightarrow> (Inr (Some m), hand_out m rest it', sent'))
          else (Inr None, it, sent))"

text \<open>
  Modelled from the spec: \<^verbatim>\<open>AsyncIterator.flatten\<close>, the sequence drained into a list
  (\<^verbatim>\<open>[elem async for elem in self]\<close>).  The sequence may be endless (limit \<open>0\<close> on a
  client that always answers with messages), so the loop runs on fuel: \<open>None\<close> is "not
  finished within \<open>n\<close> steps".
\<close>

fun flatten ::
  "nat \<Rightarrow> 'r MessageableMixin \<Rightarrow> http_call list \<Rightarrow> ChannelHistory \<Rightarrow>
     ((error + Message list) \<times> ChannelHistory \<times> http_call list) option" where
  "flatten 0 self sent it = None"
| "flatten (Suc n) self sent it =
     (case anext self sent it of
        (Inl e, it', sent') \<Rightarrow> Some (Inl e, it', sent')
      | (Inr None, it', sent') \<Rightarrow> Some (Inr [], it', sent')
      | (Inr (Some m), it', sent') \<Rightarrow>
          (case flatten n self sent' it' of
             None \<Rightarrow> None
           | Some (Inl e, it'', sent'') \<Rightarrow> Some (Inl e, it'', sent'')
           | Some (Inr ms, it'', sent'') \<Rightarrow> Some (Inr (m # ms), it'', sent'')))"

subsection \<open>\<^verbatim>\<open>MessageableMixin.purge\<close>\<close>

text \<open>
  \<^verbatim>\<open>DISCORD_EPOCH\<close> is imported from \<^verbatim>\<open>dis_snek.client.const\<close>; its value is the one the
  source's comment gives.  \<^verbatim>\<open>time.time()\<close> is the argument \<open>now\<close>, a real number of
  seconds (the rounding of floating-point arithmetic is not modelled); Python's \<^verbatim>\<open>int\<close>
  truncates toward zero.
\<close>

definition DISCORD_EPOCH :: int where
  "DISCORD_EPOCH = 1420070400000"

definition py_int :: "real \<Rightarrow> int" where
  "py_int x = (if 0 \<le> x then \<lfloor>x\<rfloor> else \<lceil>x\<rceil>)"

definition fourteen_days_ago :: "real \<Rightarrow> int" where
  "fourteen_days_ago now = push_bit 22 (py_int ((now - 1209600) * 1000.0 - of_int DISCORD_EPOCH))"

text \<open>
  The scanning loop \<^verbatim>\<open>async for message in self.history(...)\<close> with its body.  The
  iterator is asked for the next message before the body runs, so the \<^verbatim>\<open>break\<close> test
  comes after \<open>anext\<close>.  The loop inherits the fuel of the sequence it consumes.
\<close>

fun purge_loop ::
  "nat \<Rightarrow> 'r MessageableMixin \<Rightarrow> (Message \<Rightarrow> bool) \<Rightarrow> int \<Rightarrow> bool \<Rightarrow> int \<Rightarrow> snowflake list \<Rightarrow>
     http_call list \<Rightarrow> ChannelHistory \<Rightarrow>
     ((error + snowflake list) \<times> ChannelHistory \<times> http_call list) option" where
  "purge_loop 0 self predicate deletion_limit avoid_loading_msg cutoff to_delete sent it = None"
| "purge_loop (Suc n) self predicate deletion_limit avoid_loading_msg cutoff to_delete sent it =
     (case anext self sent it of
        (Inl e, it', sent') \<Rightarrow> Some (Inl e, it', sent')
      | (Inr None, it', sent') \<Rightarrow> Some (Inr to_delete, it', sent')
      | (Inr (Some message), it', sent') \<Rightarrow>
          if deletion_limit \<noteq> 0 \<and> int (length to_delete) = deletion_limit
          then Some (Inr to_delete, it', sent')
          else if \<not> predicate message
          then purge_loop n self predicate deletion_limit avoid_loading_msg cutoff to_delete sent' it'
          else if avoid_loading_msg \<and> author_id message = client_user_id self
                  \<and> LOADING \<in> flags message
          then purge_loop n self predicate deletion_limit avoid_loading_msg cutoff to_delete sent' it'
          else if message_id message < cutoff
          then purge_loop n self predicate deletion_limit avoid_loading_msg cutoff to_delete sent' it'
          else purge_loop n self predicate deletion_limit avoid_loading_msg cutoff
                 (to_delete @ [message_id message]) sent' it')"

text \<open>
  The deleting loop \<^verbatim>\<open>while len(to_delete)\<close>: \<^verbatim>\<open>pop()\<close> takes from the back, so a
  batch is the last \<open>min(100, len)\<close> identifiers, last first.  \<open>count\<close> is computed by
  the caller before the loop.
\<close>

function purge_delete ::
  "'r MessageableMixin \<Rightarrow> string option \<Rightarrow> int \<Rightarrow> snowflake list \<Rightarrow> http_call list \<Rightarrow>
     (error + int) \<times> http_call list" where
  "purge_delete self reason count to_delete sent =
     (if length to_delete = 0 then (Inr count, sent)
      else
        (case delete_messages self sent (take (min 100 (length to_delete)) (rev to_delete)) reason of
           (Inl e, sent') \<Rightarrow> (Inl e, sent')
         | (Inr _, sent') \<Rightarrow>
             purge_delete self reason count
               (take (length to_delete - min 100 (length to_delete)) to_delete) sent'))"
  by pat_completeness auto
termination
  by (relation "measure (\<lambda>(self, reason, count, to_delete, sent). length to_delete)") auto

declare purge_delete.simps [simp del]

text \<open>
  \<^verbatim>\<open>purge\<close>, in its two phases: \<open>purge_scan\<close> is the function up to the end of the
  \<^verbatim>\<open>async for\<close> loop (default predicate, cutoff, empty accumulator, the history
  iterator with \<^verbatim>\<open>limit=search_limit\<close>); \<open>purge\<close> then computes \<^verbatim>\<open>count\<close> and runs the
  deleting loop.
\<close>

definition purge_scan ::
  "nat \<Rightarrow> 'r MessageableMixin \<Rightarrow> http_call list \<Rightarrow> real \<Rightarrow> int \<Rightarrow> int \<Rightarrow> (Message \<Rightarrow> bool) option \<Rightarrow>
     bool \<Rightarrow> snowflake option \<Rightarrow> snowflake option \<Rightarrow> snowflake option \<Rightarrow>
     ((error + snowflake list) \<times> ChannelHistory \<times> http_call list) option" where
  "purge_scan fuel self sent now deletion_limit search_limit predicate avoid_loading_msg before after around =
     (let predicate' = (case predicate of None \<Rightarrow> (\<lambda>m. True) | Some p \<Rightarrow> p);
          fourteen = fourteen_days_ago now
      in purge_loop fuel self predicate' deletion_limit avoid_loading_msg fourteen []
           sent (history search_limit before after around))"

definition purge ::
  "nat \<Rightarrow> 'r MessageableMixin \<Rightarrow> http_call list \<Rightarrow> real \<Rightarrow> int \<Rightarrow> int \<Rightarrow> (Message \<Rightarrow> bool) option \<Rightarrow>
     bool \<Rightarrow> snowflake option \<Rightarrow> snowflake option \<Rightarrow> snowflake option \<Rightarrow> string option \<Rightarrow>
     ((error + int) \<times> http_call list) option" where
  "purge fuel self sent now deletion_limit search_limit predicate avoid_loading_msg before after around reason =
     (case purge_scan fuel self sent now deletion_limit search_limit predicate avoid_loading_msg
             before after around of
        None \<Rightarrow> None
      | Some (Inl e, it', sent') \<Rightarrow> Some (Inl e, sent')
      | Some (Inr to_delete, it', sent') \<Rightarrow>
          Some (purge_delete self reason (int (length to_delete)) to_delete sent'))"

subsection \<open>Notions used to state the properties\<close>

text \<open>The kinds of request, and the message identifiers a request deletes.\<close>

fun is_get :: "http_call \<Rightarrow> bool" where
  "is_get (Get_channel_messages cid l ar b af) = True"
| "is_get c = False"

fun is_bulk :: "http_call \<Rightarrow> bool" where
  "is_bulk (Bulk_delete_messages cid ids r) = True"
| "is_bulk c = False"

fun is_single :: "http_call \<Rightarrow> bool" where
  "is_single (Delete_message cid m r) = True"
| "is_single c = False"

fun call_ids :: "http_call \<Rightarrow> snowflake list" where
  "call_ids (Get_channel_messages cid l ar b af) = []"
| "call_ids (Delete_message cid m r) = [m]"
| "call_ids (Bulk_delete_messages cid ids r) = ids"

text \<open>A page in ascending, respectively descending, order of message identifier.\<close>

definition ascending_by_id :: "Message list \<Rightarrow> bool" where
  "ascending_by_id ms = sorted (map message_id ms)"

definition descending_by_id :: "Message list \<Rightarrow> bool" where
  "descending_by_id ms = sorted (rev (map message_id ms))"

text \<open>The requests sent since the log was \<open>sent\<close>, when it has grown to \<open>sent'\<close>.\<close>

definition issued :: "http_call list \<Rightarrow> http_call list \<Rightarrow> http_call list" where
  "issued sent sent' = drop (length sent) sent'"

text \<open>
  Requests sent one after the other, until the first one on which the client raises:
  that exception is the result, and nothing is sent after it.
\<close>

fun issue ::
  "'r MessageableMixin \<Rightarrow> http_call list \<Rightarrow> http_call list \<Rightarrow> (error + unit) \<times> http_call list" where
  "issue self sent [] = (Inr (), sent)"
| "issue self sent (c # cs) =
     (case client_http self sent c of
        Inl k \<Rightarrow> (Inl (HTTPError k), sent @ [c])
      | Inr _ \<Rightarrow> issue self (sent @ [c]) cs)"

text \<open>The request that \<^verbatim>\<open>delete_messages\<close> sends for one batch.\<close>

definition delete_call :: "'r MessageableMixin \<Rightarrow> string option \<Rightarrow> snowflake list \<Rightarrow> http_call" where
  "delete_call self reason batch =
     (if length batch = 1 then Delete_message (self_id self) (hd batch) reason
      else Bulk_delete_messages (self_id self) batch reason)"

text \<open>A list cut into consecutive pieces of \<open>k\<close> elements, the last one possibly shorter.\<close>

function chunks :: "nat \<Rightarrow> 'a list \<Rightarrow> 'a list list" where
  "chunks k xs = (if k = 0 \<or> xs = [] then [] else take k xs # chunks k (drop k xs))"
  by pat_completeness auto
termination
  by (relation "measure (\<lambda>(k, xs). length xs)") auto

declare chunks.simps [simp del]

text \<open>
  A message survives the three tests of the loop body of \<^verbatim>\<open>purge\<close>: the predicate
  accepts it, it is not a loading message of the bot's own (when these are avoided), and
  it is not older than the cutoff.
\<close>

definition selected ::
  "'r MessageableMixin \<Rightarrow> (Message \<Rightarrow> bool) \<Rightarrow> bool \<Rightarrow> int \<Rightarrow> Message \<Rightarrow> bool" where
  "selected self predicate avoid_loading_msg cutoff message =
     (predicate message
      \<and> \<not> (avoid_loading_msg \<and> author_id message = client_user_id self \<and> LOADING \<in> flags message)
      \<and> \<not> message_id message < cutoff)"


text \<open>
  The iterator with only its highest-precedence anchor kept: \<^verbatim>\<open>after\<close> before
  \<^verbatim>\<open>around\<close> before \<^verbatim>\<open>before\<close>, a falsy anchor (absent or \<open>0\<close>) counting as absent.
\<close>

definition highest_precedence :: "ChannelHistory \<Rightarrow> ChannelHistory" where
  "highest_precedence it =
     (if truthy (h_after it) then it\<lparr>h_before := None, h_around := None\<rparr>
      else if truthy (h_around it) then it\<lparr>h_before := None, h_after := None\<rparr>
      else if truthy (h_before it) then it\<lparr>h_after := None, h_around := None\<rparr>
      else it\<lparr>h_before := None, h_after := None, h_around := None\<rparr>)"

subsection \<open>Example channels\<close>

text \<open>
  A channel whose HTTP client answers the \<open>k\<close>-th fetch with the \<open>k\<close>-th of the given
  pages and with an empty page afterwards; deletions succeed when \<open>ok\<close> holds and
  raise exception 403 otherwise.  The bot is user 42, the channel is number 7, and the
  cache hands the records on as they are.
\<close>

definition mk_message :: "snowflake \<Rightarrow> snowflake \<Rightarrow> MessageFlags set \<Rightarrow> Message" where
  "mk_message i a fl = \<lparr>message_id = i, author_id = a, flags = fl\<rparr>"

definition paged_http :: "Message list list \<Rightarrow> bool \<Rightarrow> http_call list \<Rightarrow> http_call \<Rightarrow> nat + Message list" where
  "paged_http pages ok sent c =
     (if is_get c
      then (let k = length (filter is_get sent) in if k < length pages then Inr (pages ! k) else Inr [])
      else if ok then Inr [] else Inl 403)"

definition example_channel :: "Message list list \<Rightarrow> bool \<Rightarrow> Message MessageableMixin" where
  "example_channel pages ok =
     \<lparr>self_id = 7, client_http = paged_http pages ok,
      cache_place_message_data = (\<lambda>r. r), client_user_id = 42\<rparr>"

text \<open>A time of day at which the cutoff is the snowflake \<open>0\<close>: every identifier from \<open>0\<close> on is recent.\<close>

definition example_now :: real where
  "example_now = 1421280000"

text \<open>The messages \<open>hi\<close>, \<open>hi - 1\<close>, ..., \<open>lo\<close> of user 1, newest first, as the platform pages them.\<close>

definition messages_down :: "int \<Rightarrow> int \<Rightarrow> Message list" where
  "messages_down hi lo = map (\<lambda>i. mk_message i 1 {}) (rev [lo..hi])"

text \<open>One second later: the cutoff is the snowflake of millisecond 1000, which is 4194304000.\<close>

definition example_later :: real where
  "example_later = 1421280001"

section \<open>Basic facts\<close>

subsection \<open>Requests of the reading side\<close>

lemma get_limit_le: "get_limit it \<le> 100"
  by (simp add: get_limit_def Let_def)

lemma map_option_to_snowflake [simp]: "map_option to_snowflake x = x"
  by (cases x) (simp_all add: to_snowflake_def)

lemma map_to_snowflake [simp]: "map to_snowflake xs = xs"
  by (induction xs) (simp_all add: to_snowflake_def)

lemma get_messages_over:
  "100 < limit \<Longrightarrow> get_messages self sent limit ar b af =
     (Inl (ValueError ''You cannot fetch more than 100 messages at once.''), sent, [])"
  by (simp add: get_messages_def)

lemma get_messages_ok:
  "limit \<le> 100 \<Longrightarrow> get_messages self sent limit ar b af =
     (case client_http self sent (Get_channel_messages (self_id self) limit ar b af) of
        Inl k \<Rightarrow> Inl (HTTPError k)
      | Inr d \<Rightarrow> Inr (map (cache_place_message_data self) d),
      sent @ [Get_channel_messages (self_id self) limit ar b af],
      case client_http self sent (Get_channel_messages (self_id self) limit ar b af) of
        Inl k \<Rightarrow> []
      | Inr d \<Rightarrow> d)"
  by (simp add: get_messages_def request_def split: sum.split)

lemma fetch_sent:
  "fetch self sent it = (r, it', sent') \<Longrightarrow> \<exists>c. is_get c \<and> sent' = sent @ [c]"
  by (auto simp: fetch_def Let_def get_messages_ok get_limit_le split: if_splits sum.splits)

lemma anext_sent:
  "anext self sent it = (r, it', sent') \<Longrightarrow> sent' = sent \<or> (\<exists>c. is_get c \<and> sent' = sent @ [c])"
  by (auto simp: anext_def split: list.splits if_splits prod.splits sum.splits dest: fetch_sent)

lemma sorted_desc_sort_key:
  "sorted (rev (map message_id (sort_key (\<lambda>x. - message_id x) ms)))"
proof -
  have "sorted (map (\<lambda>x. - message_id x) (sort_key (\<lambda>x. - message_id x) ms))"
    by (rule sorted_sort_key)
  then have "sorted (map uminus (map message_id (sort_key (\<lambda>x. - message_id x) ms)))"
    by (simp add: comp_def)
  then show ?thesis
    by (simp add: sorted_wrt_rev sorted_map sorted_wrt_map)
qed

subsection \<open>Batches and the deleting loop\<close>

lemma chunks_Nil [simp]: "chunks k [] = []"
  by (simp add: chunks.simps)

lemma chunks_step: "0 < k \<Longrightarrow> xs \<noteq> [] \<Longrightarrow> chunks k xs = take k xs # chunks k (drop k xs)"
  by (subst chunks.simps) simp

lemma concat_chunks: "0 < k \<Longrightarrow> concat (chunks k xs) = xs"
proof (induction k xs rule: chunks.induct)
  case (1 k xs)
  then show ?case by (cases "xs = []") (simp_all add: chunks_step)
qed

lemma length_chunks: "0 < k \<Longrightarrow> length (chunks k xs) = (length xs + k - 1) div k"
proof (induction k xs rule: chunks.induct)
  case (1 k xs)
  show ?case
  proof (cases "xs = []")
    case True
    with 1 show ?thesis by simp
  next
    case False
    with 1 have IH: "length (chunks k (drop k xs)) = (length (drop k xs) + k - 1) div k" by simp
    show ?thesis
    proof (cases "length xs \<le> k")
      case True
      with False 1(2) have "(length xs + k - 1) div k = 1"
        by (cases xs) (simp_all add: div_nat_eqI)
      with True False 1(2) show ?thesis by (simp add: chunks_step)
    next
      case gt: False
      then have "length xs + k - 1 = (length xs - k + k - 1) + k" by simp
      then have "(length xs + k - 1) div k = Suc ((length xs - k + k - 1) div k)"
        using 1(2) by (metis div_add_self2 less_numeral_extra(3) Suc_eq_plus1)
      with IH False 1(2) show ?thesis by (simp add: chunks_step)
    qed
  qed
qed

lemma chunks_bounds: "b \<in> set (chunks k xs) \<Longrightarrow> 0 < length b \<and> length b \<le> k"
proof (induction k xs rule: chunks.induct)
  case (1 k xs)
  show ?case
  proof (cases "k = 0 \<or> xs = []")
    case True
    with 1(2) show ?thesis by (auto simp: chunks.simps)
  next
    case False
    with 1 show ?thesis by (auto simp: chunks_step)
  qed
qed

lemma delete_messages_eq:
  "delete_messages self sent batch reason =
     (case client_http self sent (delete_call self reason batch) of
        Inl k \<Rightarrow> Inl (HTTPError k) | Inr _ \<Rightarrow> Inr (),
      sent @ [delete_call self reason batch])"
proof (cases "length batch = 1")
  case True
  then show ?thesis
    by (simp add: delete_messages_def delete_message_def delete_call_def request_def to_snowflake_def
        split: sum.split)
next
  case False
  then show ?thesis
    by (simp add: delete_messages_def delete_call_def request_def split: sum.split)
qed

lemma purge_delete_issue:
  "purge_delete self reason count to_delete sent =
     (case issue self sent (map (delete_call self reason) (chunks 100 (rev to_delete))) of
        (Inl e, sent') \<Rightarrow> (Inl e, sent')
      | (Inr _, sent') \<Rightarrow> (Inr count, sent'))"
proof (induction self reason count to_delete sent rule: purge_delete.induct)
  case (1 self reason count to_delete sent)
  show ?case
  proof (cases "to_delete = []")
    case True
    then show ?thesis by (simp add: purge_delete.simps)
  next
    case False
    let ?b = "take (min 100 (length to_delete)) (rev to_delete)"
    let ?rest = "take (length to_delete - min 100 (length to_delete)) to_delete"
    have b: "?b = take 100 (rev to_delete)" by (simp add: min_def)
    have rest: "rev ?rest = drop 100 (rev to_delete)"
      by (simp add: rev_take min_def)
    have ch: "chunks 100 (rev to_delete) = ?b # chunks 100 (rev ?rest)"
      using False by (simp only: b rest) (simp add: chunks_step)
    show ?thesis
    proof (cases "client_http self sent (delete_call self reason ?b)")
      case (Inl k)
      with False show ?thesis
        by (subst purge_delete.simps) (simp add: ch delete_messages_eq del: rev_take)
    next
      case (Inr d)
      have dm: "delete_messages self sent ?b reason = (Inr (), sent @ [delete_call self reason ?b])"
        using Inr by (simp add: delete_messages_eq)
      have "purge_delete self reason count to_delete sent =
              purge_delete self reason count ?rest (sent @ [delete_call self reason ?b])"
        using False by (subst purge_delete.simps) (simp add: dm)
      also have "\<dots> = (case issue self (sent @ [delete_call self reason ?b])
                            (map (delete_call self reason) (chunks 100 (rev ?rest))) of
                        (Inl e, sent') \<Rightarrow> (Inl e, sent')
                      | (Inr _, sent') \<Rightarrow> (Inr count, sent'))"
        using False dm by (intro 1) simp_all
      finally show ?thesis using Inr by (simp add: ch)
    qed
  qed
qed

subsection \<open>Running the model on numerals, and the requests of the scanning loop\<close>

lemmas reading_defs =
  history_def anext_def continue_def hand_out_def fetch_def truthy_def get_limit_def
  get_messages_def request_def to_snowflake_def
lemmas example_defs = example_channel_def paged_http_def mk_message_def
lemmas cutoff_defs = fourteen_days_ago_def example_now_def DISCORD_EPOCH_def py_int_def

lemma purge_loop_numeral:
  "purge_loop (numeral k) self predicate deletion_limit avoid_loading_msg cutoff to_delete sent it =
     (case anext self sent it of
        (Inl e, it', sent') \<Rightarrow> Some (Inl e, it', sent')
      | (Inr None, it', sent') \<Rightarrow> Some (Inr to_delete, it', sent')
      | (Inr (Some message), it', sent') \<Rightarrow>
          if deletion_limit \<noteq> 0 \<and> int (length to_delete) = deletion_limit
          then Some (Inr to_delete, it', sent')
          else if \<not> predicate message
          then purge_loop (pred_numeral k) self predicate deletion_limit avoid_loading_msg cutoff
                 to_delete sent' it'
          else if avoid_loading_msg \<and> author_id message = client_user_id self
                  \<and> LOADING \<in> flags message
          then purge_loop (pred_numeral k) self predicate deletion_limit avoid_loading_msg cutoff
                 to_delete sent' it'
          else if message_id message < cutoff
          then purge_loop (pred_numeral k) self predicate deletion_limit avoid_loading_msg cutoff
                 to_delete sent' it'
          else purge_loop (pred_numeral k) self predicate deletion_limit avoid_loading_msg cutoff
                 (to_delete @ [message_id message]) sent' it')"
  by (simp only: numeral_eq_Suc purge_loop.simps)

lemma flatten_numeral:
  "flatten (numeral k) self sent it =
     (case anext self sent it of
        (Inl e, it', sent') \<Rightarrow> Some (Inl e, it', sent')
      | (Inr None, it', sent') \<Rightarrow> Some (Inr [], it', sent')
      | (Inr (Some m), it', sent') \<Rightarrow>
          (case flatten (pred_numeral k) self sent' it' of
             None \<Rightarrow> None
           | Some (Inl e, it'', sent'') \<Rightarrow> Some (Inl e, it'', sent'')
           | Some (Inr ms, it'', sent'') \<Rightarrow> Some (Inr (m # ms), it'', sent'')))"
  by (simp only: numeral_eq_Suc flatten.simps)

lemma is_get_not_delete: "is_get c \<Longrightarrow> \<not> is_single c \<and> \<not> is_bulk c"
  by (cases c) simp_all

lemma issued_append [simp]: "issued sent (sent @ cs) = cs"
  by (simp add: issued_def)

lemma issued_self [simp]: "issued sent sent = []"
  by (simp add: issued_def)

lemma purge_loop_sent:
  "purge_loop n self p dl av cutoff td sent it = Some (r, it', sent') \<Longrightarrow>
     \<exists>cs. sent' = sent @ cs \<and> (\<forall>c \<in> set cs. is_get c)"
proof (induction n arbitrary: td sent it)
  case 0
  then show ?case by simp
next
  case (Suc n)
  obtain a it1 sent1 where an: "anext self sent it = (a, it1, sent1)"
    by (cases "anext self sent it") auto
  from anext_sent [OF an] obtain cs1 where cs1: "sent1 = sent @ cs1" "\<forall>c \<in> set cs1. is_get c"
    by (cases "sent1 = sent") auto
  show ?case
  proof (cases a)
    case (Inl e)
    with Suc.prems an cs1 show ?thesis by auto
  next
    case (Inr mo)
    show ?thesis
    proof (cases mo)
      case None
      with Suc.prems an cs1 Inr show ?thesis by auto
    next
      case (Some m)
      show ?thesis
      proof (cases "dl \<noteq> 0 \<and> int (length td) = dl")
        case True
        with Suc.prems an cs1 Inr Some show ?thesis by auto
      next
        case False
        then obtain td' where
          "purge_loop n self p dl av cutoff td' sent1 it1 = Some (r, it', sent')"
          using Suc.prems an Inr Some by (auto split: if_splits)
        from Suc.IH [OF this] obtain cs2 where "sent' = sent1 @ cs2" "\<forall>c \<in> set cs2. is_get c"
          by auto
        with cs1 show ?thesis by (intro exI [of _ "cs1 @ cs2"]) auto
      qed
    qed
  qed
qed

lemmas purge_defs = purge_def purge_scan_def purge_delete.simps delete_messages_def delete_message_def

subsection \<open>Requests sent one after the other\<close>

lemma issue_Inr: "issue self sent cs = (Inr u, s) \<Longrightarrow> s = sent @ cs"
proof (induction cs arbitrary: sent)
  case Nil
  then show ?case by simp
next
  case (Cons c cs)
  show ?case
  proof (cases "client_http self sent c")
    case (Inl k)
    with Cons.prems show ?thesis by simp
  next
    case (Inr d)
    with Cons.prems have "issue self (sent @ [c]) cs = (Inr u, s)" by simp
    from Cons.IH [OF this] show ?thesis by simp
  qed
qed

lemma issue_Inl:
  "issue self sent cs = (Inl e, s) \<Longrightarrow>
     \<exists>j k. j < length cs \<and> e = HTTPError k \<and> s = sent @ take (Suc j) cs
        \<and> client_http self (sent @ take j cs) (cs ! j) = Inl k"
proof (induction cs arbitrary: sent)
  case Nil
  then show ?case by simp
next
  case (Cons c cs)
  show ?case
  proof (cases "client_http self sent c")
    case (Inl k)
    with Cons.prems have "e = HTTPError k" "s = sent @ [c]" by auto
    with Inl show ?thesis by (intro exI [of _ 0] exI [of _ k]) simp
  next
    case (Inr d)
    with Cons.prems have "issue self (sent @ [c]) cs = (Inl e, s)" by simp
    from Cons.IH [OF this] obtain j k where
      "j < length cs" "e = HTTPError k" "s = (sent @ [c]) @ take (Suc j) cs"
      "client_http self ((sent @ [c]) @ take j cs) (cs ! j) = Inl k" by blast
    then show ?thesis by (intro exI [of _ "Suc j"] exI [of _ k]) simp
  qed
qed

lemma issue_prefix: "issue self sent cs = (r, s) \<Longrightarrow> \<exists>j. s = sent @ take j cs"
proof (cases r)
  case (Inl e)
  assume "issue self sent cs = (r, s)"
  with Inl issue_Inl [of self sent cs e s] show ?thesis by blast
next
  case (Inr u)
  assume "issue self sent cs = (r, s)"
  with Inr issue_Inr [of self sent cs u s] show ?thesis by (intro exI [of _ "length cs"]) simp
qed

subsection \<open>Sizes of the batches\<close>

lemma map_length_chunks:
  "0 < k \<Longrightarrow> map length (chunks k xs) =
     replicate (length xs div k) k @ (if length xs mod k = 0 then [] else [length xs mod k])"
proof (induction k xs rule: chunks.induct)
  case (1 k xs)
  show ?case
  proof (cases "xs = []")
    case True
    then show ?thesis by simp
  next
    case False
    show ?thesis
    proof (cases "length xs < k")
      case True
      with False 1(2) show ?thesis by (simp add: chunks_step)
    next
      case ge: False
      then have le: "k \<le> length xs" by simp
      have d: "length xs div k = Suc ((length xs - k) div k)"
        using le 1(2) by (simp add: le_div_geq)
      have m: "(length xs - k) mod k = length xs mod k"
        using le by (simp add: le_mod_geq)
      from 1 False have IH: "map length (chunks k (drop k xs)) =
          replicate (length (drop k xs) div k) k
            @ (if length (drop k xs) mod k = 0 then [] else [length (drop k xs) mod k])"
        by simp
      show ?thesis
        using False 1(2) le IH by (simp add: chunks_step d m)
    qed
  qed
qed

lemma count_singles:
  assumes "1 < k"
  shows "length (filter (\<lambda>b. length b = 1) (chunks k xs)) = (if length xs mod k = 1 then 1 else 0)"
proof -
  have "length (filter (\<lambda>b. length b = 1) (chunks k xs))
          = length (filter (\<lambda>l. l = 1) (map length (chunks k xs)))"
    by (simp add: filter_map comp_def)
  also have "\<dots> = (if length xs mod k = 1 then 1 else 0)"
    using assms by (simp add: map_length_chunks)
  finally show ?thesis .
qed

lemma is_bulk_delete_call [simp]: "is_bulk (delete_call self reason b) \<longleftrightarrow> length b \<noteq> 1"
  by (simp add: delete_call_def)

lemma is_single_delete_call [simp]: "is_single (delete_call self reason b) \<longleftrightarrow> length b = 1"
  by (simp add: delete_call_def)

lemma call_ids_delete_call [simp]: "call_ids (delete_call self reason b) = (if length b = 1 then [hd b] else b)"
  by (simp add: delete_call_def)

lemma call_ids_delete_call_subset: "set (call_ids (delete_call self reason b)) \<subseteq> set b"
  by (cases b) (auto simp: delete_call_def)

lemma filter_gets_bulk: "\<forall>c \<in> set cs. is_get c \<Longrightarrow> filter is_bulk cs = []"
  by (auto simp: filter_empty_conv dest: is_get_not_delete)

lemma filter_gets_single: "\<forall>c \<in> set cs. is_get c \<Longrightarrow> filter is_single cs = []"
  by (auto simp: filter_empty_conv dest: is_get_not_delete)

lemma purge_scan_sent:
  "purge_scan fuel self sent now deletion_limit search_limit predicate avoid_loading_msg
     before after around = Some (r, it', sent') \<Longrightarrow>
   \<exists>cs. sent' = sent @ cs \<and> (\<forall>c \<in> set cs. is_get c)"
  unfolding purge_scan_def Let_def by (rule purge_loop_sent)

lemma purge_after_scan:
  "purge_scan fuel self sent now deletion_limit search_limit predicate avoid_loading_msg
     before after around = Some (Inr to_delete, it', sent') \<Longrightarrow>
   purge fuel self sent now deletion_limit search_limit predicate avoid_loading_msg
     before after around reason =
     Some (case issue self sent' (map (delete_call self reason) (chunks 100 (rev to_delete))) of
             (Inl e, s) \<Rightarrow> (Inl e, s)
           | (Inr u, s) \<Rightarrow> (Inr (int (length to_delete)), s))"
  by (simp add: purge_def purge_delete_issue)

lemma length_filter_bulk_chunks:
  "length (filter is_bulk (map (delete_call self reason) (chunks 100 xs)))
     = (if length xs mod 100 = 1 then length xs div 100 else (length xs + 99) div 100)"
proof -
  let ?cs = "chunks 100 xs"
  let ?n = "length xs"
  have B: "length (filter is_bulk (map (delete_call self reason) ?cs))
          = length (filter (\<lambda>b. length b \<noteq> 1) ?cs)"
    by (simp add: filter_map comp_def)
  have P: "length (filter (\<lambda>b. length b = 1) ?cs) + length (filter (\<lambda>b. length b \<noteq> 1) ?cs)
          = length ?cs"
    by (rule sum_length_filter_compl)
  have L: "length ?cs = (?n + 99) div 100"
    by (simp add: length_chunks)
  have S: "length (filter (\<lambda>b. length b = 1) ?cs) = (if ?n mod 100 = 1 then 1 else 0)"
    by (rule count_singles) simp
  show ?thesis
  proof (cases "?n mod 100 = 1")
    case True
    have "?n = ?n div 100 * 100 + ?n mod 100" by simp
    with True have "?n + 99 = (?n div 100 + 1) * 100" by simp
    then have "(?n + 99) div 100 = (?n div 100 + 1) * 100 div 100" by (rule arg_cong)
    then have "(?n + 99) div 100 = ?n div 100 + 1" by simp
    with True B P L S show ?thesis by simp
  next
    case False
    with B P L S show ?thesis by simp
  qed
qed

lemma length_filter_single_chunks:
  "length (filter is_single (map (delete_call self reason) (chunks 100 xs)))
     = (if length xs mod 100 = 1 then 1 else 0)"
proof -
  have "length (filter is_single (map (delete_call self reason) (chunks 100 xs)))
          = length (filter (\<lambda>b. length b = 1) (chunks 100 xs))"
    by (simp add: filter_map comp_def)
  also have "\<dots> = (if length xs mod 100 = 1 then 1 else 0)"
    by (rule count_singles) simp
  finally show ?thesis .
qed

subsection \<open>An invariant rule for the scanning loop\<close>

lemma purge_loop_invariant:
  assumes "purge_loop n self p dl av cutoff td sent it = Some (Inr acc, it', sent')"
    and "P td"
    and step: "\<And>td m. P td \<Longrightarrow> selected self p av cutoff m
                 \<Longrightarrow> \<not> (dl \<noteq> 0 \<and> int (length td) = dl) \<Longrightarrow> P (td @ [message_id m])"
  shows "P acc"
  using assms(1,2)
proof (induction n arbitrary: td sent it)
  case 0
  then show ?case by simp
next
  case (Suc n)
  obtain a it1 sent1 where an: "anext self sent it = (a, it1, sent1)"
    by (cases "anext self sent it") auto
  show ?case
  proof (cases a)
    case (Inl e)
    with Suc.prems an show ?thesis by simp
  next
    case (Inr mo)
    show ?thesis
    proof (cases mo)
      case None
      with Suc.prems an Inr show ?thesis by simp
    next
      case (Some m)
      show ?thesis
      proof (cases "dl \<noteq> 0 \<and> int (length td) = dl")
        case True
        with Suc.prems an Inr Some show ?thesis by simp
      next
        case nb: False
        show ?thesis
        proof (cases "selected self p av cutoff m")
          case True
          with nb Suc.prems(1) an Inr Some
          have "purge_loop n self p dl av cutoff (td @ [message_id m]) sent1 it1 = Some (Inr acc, it', sent')"
            by (simp add: selected_def split: if_splits)
          moreover have "P (td @ [message_id m])"
            using step [OF Suc.prems(2) True nb] .
          ultimately show ?thesis by (rule Suc.IH)
        next
          case False
          with nb Suc.prems(1) an Inr Some
          have "purge_loop n self p dl av cutoff td sent1 it1 = Some (Inr acc, it', sent')"
            by (auto simp: selected_def split: if_splits)
          then show ?thesis using Suc.prems(2) by (rule Suc.IH)
        qed
      qed
    qed
  qed
qed

lemma purge_loop_cutoff:
  assumes "purge_loop n self p dl av cutoff td sent it = Some (Inr acc, it', sent')"
    and "\<forall>i \<in> set td. cutoff \<le> i"
  shows "\<forall>i \<in> set acc. cutoff \<le> i"
  using assms
  by (rule purge_loop_invariant [where P = "\<lambda>td. \<forall>i \<in> set td. cutoff \<le> i"])
     (auto simp: selected_def)

lemma is_get_call_ids: "is_get c \<Longrightarrow> call_ids c = []"
  by (cases c) simp_all

lemma issued_ids_of_batches:
  assumes "c \<in> set (take j (map (delete_call self reason) (chunks 100 xs)))" "i \<in> set (call_ids c)"
  shows "i \<in> set xs"
proof -
  from assms(1) have "c \<in> set (map (delete_call self reason) (chunks 100 xs))"
    by (rule in_set_takeD)
  then obtain b where b: "b \<in> set (chunks 100 xs)" and c: "c = delete_call self reason b" by auto
  from assms(2) c have "i \<in> set b"
    using call_ids_delete_call_subset [of self reason b] by auto
  with b have "i \<in> set (concat (chunks 100 xs))" by auto
  then show ?thesis by (simp add: concat_chunks)
qed

lemmas cutoff_later_defs = fourteen_days_ago_def example_later_def DISCORD_EPOCH_def py_int_def

lemma purge_loop_step:
  "anext self sent it = (Inr (Some m), it1, sent1) \<Longrightarrow>
   purge_loop (Suc n) self p dl av cutoff td sent it =
     (if dl \<noteq> 0 \<and> int (length td) = dl then Some (Inr td, it1, sent1)
      else if selected self p av cutoff m
      then purge_loop n self p dl av cutoff (td @ [message_id m]) sent1 it1
      else purge_loop n self p dl av cutoff td sent1 it1)"
  by (simp add: selected_def)

subsection \<open>The scanning loop and the drained sequence\<close>

lemma fetch_state:
  "fetch self sent it = (r, it', sent') \<Longrightarrow>
     h_queue it' = h_queue it \<and> h_retrieved it' = h_retrieved it \<and> h_before it' = h_before it
     \<and> h_after it' = h_after it \<and> h_around it' = h_around it"
  by (auto simp: fetch_def Let_def split: if_splits prod.splits sum.splits)

lemma fetch_limit:
  "truthy (h_after it) \<or> \<not> truthy (h_around it) \<Longrightarrow> fetch self sent it = (r, it', sent') \<Longrightarrow>
     h_limit it' = h_limit it"
  by (auto simp: fetch_def Let_def split: if_splits prod.splits sum.splits)

lemma purge_loop_flatten:
  "purge_loop n self p 0 av cutoff td sent it =
     (case flatten n self sent it of
        None \<Rightarrow> None
      | Some (Inl e, it', sent') \<Rightarrow> Some (Inl e, it', sent')
      | Some (Inr ms, it', sent') \<Rightarrow>
          Some (Inr (td @ map message_id (filter (selected self p av cutoff) ms)), it', sent'))"
proof (induction n arbitrary: td sent it)
  case 0
  show ?case by simp
next
  case (Suc n)
  obtain a it1 sent1 where an: "anext self sent it = (a, it1, sent1)"
    by (cases "anext self sent it") auto
  show ?case
  proof (cases a)
    case (Inl e)
    with an show ?thesis by simp
  next
    case (Inr mo)
    show ?thesis
    proof (cases mo)
      case None
      with an Inr show ?thesis by simp
    next
      case (Some m)
      with an Inr have an': "anext self sent it = (Inr (Some m), it1, sent1)" by simp
      show ?thesis
        unfolding purge_loop_step [OF an'] flatten.simps an'
        by (simp add: Suc.IH split: option.splits sum.splits prod.splits)
    qed
  qed
qed


lemma purge_loop_length:
  assumes "purge_loop n self p dl av cutoff td sent it = Some (Inr acc, it', sent')"
    and "0 < dl" "int (length td) \<le> dl"
  shows "int (length acc) \<le> dl"
  using assms(1,3)
  by (rule purge_loop_invariant [where P = "\<lambda>td. int (length td) \<le> dl"])
     (use assms(2) in auto)

lemma anext_None:
  "anext self sent it = (Inr None, it', sent') \<Longrightarrow>
     h_queue it = [] \<and>
     (if continue it then fetch self sent it = (Inr [], it', sent')
      else it' = it \<and> sent' = sent)"
  by (auto simp: anext_def split: list.splits if_splits prod.splits sum.splits)

lemma anext_Some:
  "anext self sent it = (Inr (Some m), it', sent') \<Longrightarrow>
     h_retrieved it' = Suc (h_retrieved it)"
  by (auto simp: anext_def hand_out_def dest: fetch_state split: list.splits if_splits prod.splits sum.splits)

lemma flatten_end:
  "flatten n self sent it = Some (Inr ms, it', sent') \<Longrightarrow>
     h_retrieved it' = h_retrieved it + length ms \<and> h_queue it' = []
     \<and> ((h_limit it' \<noteq> 0 \<and> h_limit it' \<le> int (h_retrieved it'))
        \<or> (\<exists>sent0 it0. fetch self sent0 it0 = (Inr [], it', sent')))"
proof (induction n arbitrary: sent it ms)
  case 0
  then show ?case by simp
next
  case (Suc n)
  obtain a it1 sent1 where an: "anext self sent it = (a, it1, sent1)"
    by (cases "anext self sent it") auto
  show ?case
  proof (cases a)
    case (Inl e)
    with an Suc.prems(1) show ?thesis by simp
  next
    case (Inr mo)
    show ?thesis
    proof (cases mo)
      case None
      with an Inr Suc.prems have e: "ms = []" "it' = it1" "sent' = sent1" by auto
      from an Inr None have an': "anext self sent it = (Inr None, it1, sent1)" by simp
      note q = anext_None [OF an']
      show ?thesis
      proof (cases "continue it")
        case True
        with q have f: "fetch self sent it = (Inr [], it1, sent1)" by simp
        from fetch_state [OF f] q f show ?thesis by (auto simp: e)
      next
        case False
        with q show ?thesis by (auto simp: e continue_def)
      qed
    next
      case (Some m)
      with an Inr have an': "anext self sent it = (Inr (Some m), it1, sent1)" by simp
      from Suc.prems(1) an' obtain ms' where
        fl: "flatten n self sent1 it1 = Some (Inr ms', it', sent')" and ms: "ms = m # ms'"
        by (auto split: option.splits sum.splits prod.splits)
      from Suc.IH [OF fl] anext_Some [OF an'] show ?thesis by (auto simp: ms)
    qed
  qed
qed






subsection \<open>What a run of the iterator keeps, and the mode \<^verbatim>\<open>around\<close>\<close>

lemma anext_keeps:
  assumes an: "anext self sent it = (r, it', sent')"
  shows "h_before it' = h_before it \<and> h_after it' = h_after it \<and> h_around it' = h_around it
     \<and> (truthy (h_after it) \<or> \<not> truthy (h_around it) \<longrightarrow> h_limit it' = h_limit it)"
proof (cases "h_queue it = [] \<and> continue it")
  case True
  obtain a it1 sent1 where f: "fetch self sent it = (a, it1, sent1)"
    by (cases "fetch self sent it") auto
  note st = fetch_state [OF f]
  have "truthy (h_after it) \<or> \<not> truthy (h_around it) \<Longrightarrow> h_limit it1 = h_limit it"
    by (rule fetch_limit [OF _ f])
  with an True f st show ?thesis
    by (auto simp: anext_def hand_out_def split: sum.splits list.splits)
next
  case False
  with an show ?thesis
    by (auto simp: anext_def hand_out_def split: list.splits if_splits)
qed

lemma flatten_keeps:
  "flatten n self sent it = Some (r, it', sent') \<Longrightarrow>
     truthy (h_after it) \<or> \<not> truthy (h_around it) \<Longrightarrow> h_limit it' = h_limit it"
proof (induction n arbitrary: sent it r)
  case 0
  then show ?case by simp
next
  case (Suc n)
  obtain a it1 sent1 where an: "anext self sent it = (a, it1, sent1)"
    by (cases "anext self sent it") auto
  note k = anext_keeps [OF an]
  show ?case
  proof (cases a)
    case (Inl e)
    with an Suc.prems k show ?thesis by auto
  next
    case (Inr mo)
    show ?thesis
    proof (cases mo)
      case None
      with an Inr Suc.prems k show ?thesis by auto
    next
      case (Some m)
      with an Inr Suc.prems(1) obtain r1 where
        fl: "flatten n self sent1 it1 = Some (r1, it', sent')"
        by (auto split: option.splits sum.splits prod.splits)
      from Suc.IH [OF fl] k Suc.prems(2) show ?thesis by auto
    qed
  qed
qed

lemma anext_drained:
  "h_limit it = 1 \<Longrightarrow> 1 \<le> h_retrieved it \<Longrightarrow>
     anext self sent it =
       (case h_queue it of
          [] \<Rightarrow> (Inr None, it, sent)
        | m # rest \<Rightarrow> (Inr (Some m), hand_out m rest it, sent))"
  by (simp add: anext_def continue_def split: list.splits)

lemma flatten_drained:
  "h_limit it = 1 \<Longrightarrow> 1 \<le> h_retrieved it \<Longrightarrow> flatten n self sent it = Some (r, it', sent') \<Longrightarrow>
     sent' = sent \<and> r = Inr (h_queue it) \<and> h_limit it' = 1"
proof (induction n arbitrary: it r)
  case 0
  then show ?case by simp
next
  case (Suc n)
  show ?case
  proof (cases "h_queue it")
    case Nil
    with Suc.prems show ?thesis by (simp add: anext_drained)
  next
    case (Cons m rest)
    with Suc.prems obtain r1 where
      fl: "flatten n self sent (hand_out m rest it) = Some (r1, it', sent')"
      by (auto simp: anext_drained split: option.splits sum.splits prod.splits)
    have "h_limit (hand_out m rest it) = 1" "1 \<le> h_retrieved (hand_out m rest it)"
      using Suc.prems(1) by (simp_all add: hand_out_def)
    from Suc.IH [OF this fl] have "sent' = sent" "r1 = Inr rest" "h_limit it' = 1"
      by (simp_all add: hand_out_def)
    with Suc.prems Cons fl show ?thesis by (simp add: anext_drained)
  qed
qed


lemma fetch_around:
  "truthy (h_around it) \<Longrightarrow> \<not> truthy (h_after it) \<Longrightarrow>
   fetch self sent it =
     (case client_http self sent
             (Get_channel_messages (self_id self) (get_limit it) (h_around it) None None) of
        Inl k \<Rightarrow> (Inl (HTTPError k), it,
                  sent @ [Get_channel_messages (self_id self) (get_limit it) (h_around it) None None])
      | Inr d \<Rightarrow> (Inr (map (cache_place_message_data self) d), it\<lparr>h_limit := 1\<rparr>,
                  sent @ [Get_channel_messages (self_id self) (get_limit it) (h_around it) None None]))"
  by (simp add: fetch_def get_messages_ok get_limit_le split: sum.splits)

lemma flatten_around:
  assumes ar: "truthy (h_around it)" "\<not> truthy (h_after it)"
    and start: "h_queue it = []" "h_retrieved it = 0"
    and fl: "flatten n self sent it = Some (r, it', sent')"
  shows "(\<not> continue it \<and> r = Inr [] \<and> sent' = sent)
       \<or> (continue it
          \<and> sent' = sent @ [Get_channel_messages (self_id self) (get_limit it) (h_around it) None None]
          \<and> r = (case client_http self sent
                        (Get_channel_messages (self_id self) (get_limit it) (h_around it) None None) of
                   Inl k \<Rightarrow> Inl (HTTPError k)
                 | Inr d \<Rightarrow> Inr (map (cache_place_message_data self) d)))"
proof -
  let ?G = "Get_channel_messages (self_id self) (get_limit it) (h_around it) None None"
  from fl obtain k where n: "n = Suc k" by (cases n) auto
  show ?thesis
  proof (cases "continue it")
    case False
    with fl start show ?thesis by (simp add: n anext_def)
  next
    case True
    show ?thesis
    proof (cases "client_http self sent ?G")
      case (Inl e)
      with fl start True show ?thesis by (auto simp: n anext_def fetch_around [OF ar])
    next
      case (Inr d)
      show ?thesis
      proof (cases "map (cache_place_message_data self) d")
        case Nil
        with fl start True Inr show ?thesis by (auto simp: n anext_def fetch_around [OF ar])
      next
        case (Cons m rest)
        let ?it1 = "hand_out m rest (it\<lparr>h_limit := 1\<rparr>)"
        have an: "anext self sent it = (Inr (Some m), ?it1, sent @ [?G])"
          using start True Inr Cons by (simp add: anext_def fetch_around [OF ar])
        from fl obtain r1 where f1: "flatten k self (sent @ [?G]) ?it1 = Some (r1, it', sent')"
          and r: "r = (case r1 of Inl e \<Rightarrow> Inl e | Inr ms \<Rightarrow> Inr (m # ms))"
          unfolding n flatten.simps an by (auto split: option.splits sum.splits prod.splits)
        have "h_limit ?it1 = 1" "1 \<le> h_retrieved ?it1" by (simp_all add: hand_out_def)
        from flatten_drained [OF this f1] have "sent' = sent @ [?G]" "r1 = Inr rest"
          by (simp_all add: hand_out_def)
        with r True Inr Cons show ?thesis by simp
      qed
    qed
  qed
qed


subsection \<open>Runs of the example channels\<close>

lemma scan150:
  "purge_scan 152 (example_channel [messages_down 150 51, messages_down 50 1] True) [] example_now 0 150
      None True None None None =
     Some (Inr (rev [1..150]), (history 150 None None None)\<lparr>h_last := Some 1, h_retrieved := 150\<rparr>,
           [Get_channel_messages 7 100 None None None, Get_channel_messages 7 50 None (Some 51) None])"
  by (simp add: purge_scan_def purge_loop_numeral reading_defs example_defs cutoff_defs
      messages_down_def upto.simps)

lemma issue150:
  "issue (example_channel [messages_down 150 51, messages_down 50 1] True)
      [Get_channel_messages 7 100 None None None, Get_channel_messages 7 50 None (Some 51) None]
      (map (delete_call (example_channel [messages_down 150 51, messages_down 50 1] True) None)
         (chunks 100 (rev (rev [1..150])))) =
   (Inr (), [Get_channel_messages 7 100 None None None, Get_channel_messages 7 50 None (Some 51) None,
            Bulk_delete_messages 7 [1..100] None, Bulk_delete_messages 7 [101..150] None])"
  by (simp add: chunks_step delete_call_def example_defs upto.simps)

lemma purge150:
  "purge 152 (example_channel [messages_down 150 51, messages_down 50 1] True) [] example_now 0 150
      None True None None None None =
     Some (Inr 150,
           [Get_channel_messages 7 100 None None None, Get_channel_messages 7 50 None (Some 51) None,
            Bulk_delete_messages 7 [1..100] None, Bulk_delete_messages 7 [101..150] None])"
  unfolding purge_after_scan [OF scan150] issue150 by simp

lemma scan101:
  "purge_scan 103 (example_channel [messages_down 101 2, messages_down 1 1] True) [] example_now 0 101
      None True None None None =
     Some (Inr (rev [1..101]), (history 101 None None None)\<lparr>h_last := Some 1, h_retrieved := 101\<rparr>,
           [Get_channel_messages 7 100 None None None, Get_channel_messages 7 1 None (Some 2) None])"
  by (simp add: purge_scan_def purge_loop_numeral reading_defs example_defs cutoff_defs
      messages_down_def upto.simps)

lemma issue101:
  "issue (example_channel [messages_down 101 2, messages_down 1 1] True)
      [Get_channel_messages 7 100 None None None, Get_channel_messages 7 1 None (Some 2) None]
      (map (delete_call (example_channel [messages_down 101 2, messages_down 1 1] True) None)
         (chunks 100 (rev (rev [1..101])))) =
   (Inr (), [Get_channel_messages 7 100 None None None, Get_channel_messages 7 1 None (Some 2) None,
            Bulk_delete_messages 7 [1..100] None, Delete_message 7 101 None])"
  by (simp add: chunks_step delete_call_def example_defs upto.simps)

lemma scan_fail:
  "purge_scan 5 (example_channel [[mk_message 2 1 {}, mk_message 1 1 {}]] False) [] example_now 0 100
      None True None None None =
     Some (Inr [2, 1], (history 100 None None None)\<lparr>h_last := Some 1, h_retrieved := 2\<rparr>,
           [Get_channel_messages 7 100 None None None, Get_channel_messages 7 98 None (Some 1) None])"
  by (simp add: purge_scan_def purge_loop_numeral reading_defs example_defs cutoff_defs)

lemma scan_old:
  "purge_scan 5 (example_channel [[mk_message 5000000000 1 {}, mk_message 7 1 {}]] True) []
      example_later 0 100 None True None None None =
     Some (Inr [5000000000], (history 100 None None None)\<lparr>h_last := Some 7, h_retrieved := 2\<rparr>,
           [Get_channel_messages 7 100 None None None, Get_channel_messages 7 98 None (Some 7) None])"
  by (simp add: purge_scan_def purge_loop_numeral reading_defs example_defs cutoff_later_defs)

lemma flatten_loading:
  "flatten 5 (example_channel [[mk_message 3 42 {LOADING}, mk_message 2 1 {}, mk_message 1 1 {}]] True) []
      (history 100 None None None) =
     Some (Inr [mk_message 3 42 {LOADING}, mk_message 2 1 {}, mk_message 1 1 {}],
           (history 100 None None None)\<lparr>h_last := Some 1, h_retrieved := 3\<rparr>,
           [Get_channel_messages 7 100 None None None, Get_channel_messages 7 97 None (Some 1) None])"
  by (simp add: flatten_numeral reading_defs example_defs)

lemma scan_loading:
  "purge_scan 5 (example_channel [[mk_message 3 42 {LOADING}, mk_message 2 1 {}, mk_message 1 1 {}]] True) []
      example_now 1 100 None True None None None =
     Some (Inr [2], (history 100 None None None)\<lparr>h_last := Some 1, h_retrieved := 3\<rparr>,
           [Get_channel_messages 7 100 None None None])"
  by (simp add: purge_scan_def purge_loop_numeral reading_defs example_defs cutoff_defs)

lemma flatten_around_run:
  "flatten 5 (example_channel [[mk_message 9 1 {}, mk_message 8 1 {}, mk_message 7 1 {}]] True) []
      (history 0 None None (Some 8)) =
     Some (Inr [mk_message 9 1 {}, mk_message 8 1 {}, mk_message 7 1 {}],
           (history 0 None None (Some 8))\<lparr>h_limit := 1, h_last := Some 7, h_retrieved := 3\<rparr>,
           [Get_channel_messages 7 100 (Some 8) None None])"
  by (simp add: flatten_numeral reading_defs example_defs)

lemma flatten_limit_run:
  "flatten 4 (example_channel [[mk_message 3 1 {}, mk_message 2 1 {}], [mk_message 1 1 {}]] True) []
      (history 2 None None None) =
     Some (Inr [mk_message 3 1 {}, mk_message 2 1 {}],
           (history 2 None None None)\<lparr>h_last := Some 2, h_retrieved := 2\<rparr>,
           [Get_channel_messages 7 2 None None None])"
  by (simp add: flatten_numeral reading_defs example_defs)

lemma scan_around_page:
  "purge_scan 102 (example_channel [messages_down 150 51, messages_down 50 1] True) [] example_now 0 150
      None True None None (Some 100) =
     Some (Inr (rev [51..150]),
           (history 150 None None (Some 100))\<lparr>h_limit := 1, h_last := Some 51, h_retrieved := 100\<rparr>,
           [Get_channel_messages 7 100 (Some 100) None None])"
  by (simp add: purge_scan_def purge_loop_numeral reading_defs example_defs cutoff_defs
      messages_down_def upto.simps)

section \<open>The claims\<close>

subsection \<open>C8: \<^verbatim>\<open>get_messages\<close> rejects a limit above 100 before any request or cache access\<close>

text \<open>
  Claim C8.  \<^verbatim>\<open>get_messages\<close> raises the invalid-argument error (\<^verbatim>\<open>ValueError\<close>) whenever
  it is called with a limit above 100, and it does so before any HTTP request and before
  any cache access: the list of requests sent comes back unchanged, and the list of
  records handed to the cache is empty.  For every limit of at most 100 the check raises
  nothing: the request is sent with that limit, the result is not the \<^verbatim>\<open>ValueError\<close>,
  and the cache is handed exactly the records of the client's answer (none when the
  client raises).
\<close>

theorem get_messages_limit_check:
  "(100 < limit \<longrightarrow>
      get_messages self sent limit around before after =
        (Inl (ValueError ''You cannot fetch more than 100 messages at once.''), sent, []))
   \<and> (limit \<le> 100 \<longrightarrow>
        (\<forall>msg. fst (get_messages self sent limit around before after) \<noteq> Inl (ValueError msg))
        \<and> fst (snd (get_messages self sent limit around before after)) =
            sent @ [Get_channel_messages (self_id self) limit around before after]
        \<and> snd (snd (get_messages self sent limit around before after)) =
            (case client_http self sent
                    (Get_channel_messages (self_id self) limit around before after) of
               Inl k \<Rightarrow> [] | Inr records \<Rightarrow> records))"
  by (auto simp: get_messages_over get_messages_ok split: sum.splits)

theorem get_messages_limit_check_witness:
  "(100::int) < 101
   \<and> get_messages (example_channel [[mk_message 3 1 {}]] True) [] 101 None None None =
       (Inl (ValueError ''You cannot fetch more than 100 messages at once.''), [], [])
   \<and> (100::int) \<le> 100
   \<and> fst (get_messages (example_channel [[mk_message 3 1 {}]] True) [] 100 None None None)
       \<noteq> Inl (ValueError [])
   \<and> fst (snd (get_messages (example_channel [[mk_message 3 1 {}]] True) [] 100 None None None)) =
       [Get_channel_messages 7 100 None None None]
   \<and> snd (snd (get_messages (example_channel [[mk_message 3 1 {}]] True) [] 100 None None None)) =
       [mk_message 3 1 {}]"
  using get_messages_limit_check [where limit = 101
          and self = "example_channel [[mk_message 3 1 {}]] True"
          and sent = "[]" and around = None and before = None and after = None]
        get_messages_limit_check [where limit = 100
          and self = "example_channel [[mk_message 3 1 {}]] True"
          and sent = "[]" and around = None and before = None and after = None]
  by (simp add: example_channel_def paged_http_def)

subsection \<open>C2: the order of a fetched page\<close>

text \<open>
  Claim C2, as amended.  A page returned by \<^verbatim>\<open>ChannelHistory.fetch\<close> is sorted ascending by
  message identifier when \<^verbatim>\<open>after\<close> is in force (truthy), and sorted descending when
  neither \<^verbatim>\<open>after\<close> nor \<^verbatim>\<open>around\<close> is in force (the \<^verbatim>\<open>before\<close> branch, which is also
  the default).  When \<^verbatim>\<open>around\<close> is in force the page is not sorted at all: it is
  the client's answer, record by record, in the order the client delivered it.
\<close>

theorem fetch_page_order:
  "fetch self sent it = (Inr messages, it', sent') \<Longrightarrow>
     (truthy (h_after it) \<longrightarrow> ascending_by_id messages)
   \<and> (\<not> truthy (h_after it) \<and> \<not> truthy (h_around it) \<longrightarrow> descending_by_id messages)
   \<and> (\<not> truthy (h_after it) \<and> truthy (h_around it) \<longrightarrow>
        (\<exists>records. client_http self sent
            (Get_channel_messages (self_id self) (get_limit it) (h_around it) None None) = Inr records
          \<and> messages = map (cache_place_message_data self) records))"
  by (auto simp: fetch_def Let_def get_messages_ok get_limit_le ascending_by_id_def descending_by_id_def
      sorted_desc_sort_key simp flip: map_map split: if_splits sum.splits)


theorem fetch_page_order_witness:
  "fetch (example_channel [[mk_message 1 1 {}, mk_message 3 1 {}, mk_message 2 1 {}]] True) []
      (history 0 None (Some 1) None) =
     (Inr [mk_message 1 1 {}, mk_message 2 1 {}, mk_message 3 1 {}],
      (history 0 None (Some 1) None)\<lparr>h_last := Some 1\<rparr>,
      [Get_channel_messages 7 100 None None (Some 1)])
   \<and> truthy (h_after (history 0 None (Some 1) None))
   \<and> ascending_by_id [mk_message 1 1 {}, mk_message 2 1 {}, mk_message 3 1 {}]
   \<and> fetch (example_channel [[mk_message 1 1 {}, mk_message 3 1 {}, mk_message 2 1 {}]] True) []
      (history 0 (Some 9) None None) =
     (Inr [mk_message 3 1 {}, mk_message 2 1 {}, mk_message 1 1 {}],
      (history 0 (Some 9) None None)\<lparr>h_last := Some 9\<rparr>,
      [Get_channel_messages 7 100 None (Some 9) None])
   \<and> \<not> truthy (h_after (history 0 (Some 9) None None))
   \<and> \<not> truthy (h_around (history 0 (Some 9) None None))
   \<and> descending_by_id [mk_message 3 1 {}, mk_message 2 1 {}, mk_message 1 1 {}]
   \<and> fetch (example_channel [[mk_message 1 1 {}, mk_message 3 1 {}, mk_message 2 1 {}]] True) []
      (history 0 None None (Some 2)) =
     (Inr [mk_message 1 1 {}, mk_message 3 1 {}, mk_message 2 1 {}],
      (history 0 None None (Some 2))\<lparr>h_limit := 1\<rparr>,
      [Get_channel_messages 7 100 (Some 2) None None])
   \<and> \<not> truthy (h_after (history 0 None None (Some 2)))
   \<and> truthy (h_around (history 0 None None (Some 2)))"
proof -
  let ?E = "example_channel [[mk_message 1 1 {}, mk_message 3 1 {}, mk_message 2 1 {}]] True"
  have a: "fetch ?E [] (history 0 None (Some 1) None) =
     (Inr [mk_message 1 1 {}, mk_message 2 1 {}, mk_message 3 1 {}],
      (history 0 None (Some 1) None)\<lparr>h_last := Some 1\<rparr>,
      [Get_channel_messages 7 100 None None (Some 1)])"
    by (simp add: reading_defs example_defs)
  have b: "fetch ?E [] (history 0 (Some 9) None None) =
     (Inr [mk_message 3 1 {}, mk_message 2 1 {}, mk_message 1 1 {}],
      (history 0 (Some 9) None None)\<lparr>h_last := Some 9\<rparr>,
      [Get_channel_messages 7 100 None (Some 9) None])"
    by (simp add: reading_defs example_defs)
  have c: "fetch ?E [] (history 0 None None (Some 2)) =
     (Inr [mk_message 1 1 {}, mk_message 3 1 {}, mk_message 2 1 {}],
      (history 0 None None (Some 2))\<lparr>h_limit := 1\<rparr>,
      [Get_channel_messages 7 100 (Some 2) None None])"
    by (simp add: reading_defs example_defs)
  have t: "truthy (h_after (history 0 None (Some 1) None))"
    "\<not> truthy (h_after (history 0 (Some 9) None None))"
    "\<not> truthy (h_around (history 0 (Some 9) None None))"
    "\<not> truthy (h_after (history 0 None None (Some 2)))"
    "truthy (h_around (history 0 None None (Some 2)))"
    by (simp_all add: history_def truthy_def)
  from fetch_page_order [OF a] fetch_page_order [OF b] fetch_page_order [OF c] a b c t
  show ?thesis by blast
qed

text \<open>
  The claim as stated fails for \<^verbatim>\<open>around\<close>: a client that answers the request around
  message 2 with the messages 1, 3, 2 in this order gets them back in this order, which
  is not descending.
\<close>

theorem fetch_around_unsorted_counterexample:
  "fetch (example_channel [[mk_message 1 1 {}, mk_message 3 1 {}, mk_message 2 1 {}]] True) []
      (history 0 None None (Some 2)) =
     (Inr [mk_message 1 1 {}, mk_message 3 1 {}, mk_message 2 1 {}],
      (history 0 None None (Some 2))\<lparr>h_limit := 1\<rparr>,
      [Get_channel_messages 7 100 (Some 2) None None])
   \<and> \<not> descending_by_id [mk_message 1 1 {}, mk_message 3 1 {}, mk_message 2 1 {}]"
  by (simp add: reading_defs example_defs descending_by_id_def)

subsection \<open>C3: one accumulated message is deleted by the single-message operation\<close>

text \<open>
  Claim C3.  When the scan of \<^verbatim>\<open>purge\<close> has accumulated exactly one message identifier,
  \<^verbatim>\<open>purge\<close> sends exactly one \<^verbatim>\<open>delete_message\<close> request, for that identifier, and no
  \<^verbatim>\<open>bulk_delete_messages\<close> request (it returns 1, or the exception of that one request);
  and \<^verbatim>\<open>delete_messages\<close> on a one-element list is \<^verbatim>\<open>delete_message\<close> on its element.
\<close>

theorem purge_single_delete:
  assumes "purge_scan fuel self sent now deletion_limit search_limit predicate avoid_loading_msg
             before after around = Some (Inr [m], it', sent')"
  shows "purge fuel self sent now deletion_limit search_limit predicate avoid_loading_msg
             before after around reason =
           Some (case client_http self sent' (Delete_message (self_id self) m reason) of
                   Inl k \<Rightarrow> Inl (HTTPError k) | Inr d \<Rightarrow> Inr 1,
                 sent' @ [Delete_message (self_id self) m reason])
         \<and> filter is_single (issued sent (sent' @ [Delete_message (self_id self) m reason])) =
             [Delete_message (self_id self) m reason]
         \<and> filter is_bulk (issued sent (sent' @ [Delete_message (self_id self) m reason])) = []
         \<and> delete_messages self sent [m] reason = delete_message self sent m reason"
proof -
  from assms obtain cs where cs: "sent' = sent @ cs" "\<forall>c \<in> set cs. is_get c"
    unfolding purge_scan_def Let_def by (blast dest: purge_loop_sent)
  have single: "filter is_single cs = []" and bulk: "filter is_bulk cs = []"
    using cs(2) by (auto simp: filter_empty_conv dest: is_get_not_delete)
  have ch: "chunks 100 [m] = [[m]]"
    by (simp add: chunks_step)
  have "purge fuel self sent now deletion_limit search_limit predicate avoid_loading_msg
             before after around reason =
           Some (case client_http self sent' (Delete_message (self_id self) m reason) of
                   Inl k \<Rightarrow> Inl (HTTPError k) | Inr d \<Rightarrow> Inr 1,
                 sent' @ [Delete_message (self_id self) m reason])"
    using assms by (simp add: purge_def purge_delete_issue ch delete_call_def split: sum.split)
  moreover have "delete_messages self sent [m] reason = delete_message self sent m reason"
    by (simp add: delete_messages_def to_snowflake_def)
  ultimately show ?thesis
    using single bulk by (simp add: cs(1))
qed

theorem purge_single_delete_witness:
  "purge_scan 5 (example_channel [[mk_message 1 1 {}]] True) [] example_now 50 100 None True
      None None None =
     Some (Inr [1], (history 100 None None None)\<lparr>h_last := Some 1, h_retrieved := 1\<rparr>,
           [Get_channel_messages 7 100 None None None, Get_channel_messages 7 99 None (Some 1) None])
   \<and> purge 5 (example_channel [[mk_message 1 1 {}]] True) [] example_now 50 100 None True
      None None None None =
     Some (Inr 1, [Get_channel_messages 7 100 None None None,
                   Get_channel_messages 7 99 None (Some 1) None, Delete_message 7 1 None])"
proof -
  have scan: "purge_scan 5 (example_channel [[mk_message 1 1 {}]] True) [] example_now 50 100 None True
      None None None =
     Some (Inr [1], (history 100 None None None)\<lparr>h_last := Some 1, h_retrieved := 1\<rparr>,
           [Get_channel_messages 7 100 None None None, Get_channel_messages 7 99 None (Some 1) None])"
    by (simp add: purge_scan_def purge_loop_numeral reading_defs example_defs cutoff_defs)
  from purge_single_delete [OF scan, of None] scan show ?thesis
    by (simp add: example_defs)
qed

subsection \<open>C4: batches of at most 100\<close>

text \<open>
  Claim C4, as amended.  When the scan of \<^verbatim>\<open>purge\<close> has accumulated \<open>N\<close> message
  identifiers and no delete request raises, \<^verbatim>\<open>purge\<close> returns \<open>N\<close> and the accumulator,
  read from its back, is cut into \<open>ceil(N/100)\<close> batches: \<open>N div 100\<close> batches of
  exactly 100 identifiers followed by one batch of \<open>N mod 100\<close> when that is not \<open>0\<close>.
  \<^verbatim>\<open>purge\<close> sends one request per batch, in this order: a bulk-delete request for a
  batch of two or more identifiers, and a single-message delete for a batch of exactly
  one, which arises exactly when \<open>N mod 100 = 1\<close>.  So the number of bulk-delete
  requests is \<open>ceil(N/100)\<close> unless \<open>N mod 100 = 1\<close>, when it is \<open>N div 100\<close>; for
  \<open>N = 150\<close> these are two bulk requests of 100 and 50 identifiers.
\<close>

theorem purge_batches:
  assumes scan: "purge_scan fuel self sent now deletion_limit search_limit predicate avoid_loading_msg
                   before after around = Some (Inr to_delete, it', sent')"
      and ret: "purge fuel self sent now deletion_limit search_limit predicate avoid_loading_msg
                   before after around reason = Some (Inr count, sent'')"
  shows "count = int (length to_delete)
       \<and> issued sent' sent'' = map (delete_call self reason) (chunks 100 (rev to_delete))
       \<and> concat (chunks 100 (rev to_delete)) = rev to_delete
       \<and> map length (chunks 100 (rev to_delete)) =
           replicate (length to_delete div 100) 100
             @ (if length to_delete mod 100 = 0 then [] else [length to_delete mod 100])
       \<and> length (chunks 100 (rev to_delete)) = (length to_delete + 99) div 100
       \<and> length (filter is_bulk (issued sent sent'')) =
           (if length to_delete mod 100 = 1 then length to_delete div 100
            else (length to_delete + 99) div 100)
       \<and> length (filter is_single (issued sent sent'')) =
           (if length to_delete mod 100 = 1 then 1 else 0)"
proof -
  let ?calls = "map (delete_call self reason) (chunks 100 (rev to_delete))"
  from purge_scan_sent [OF scan] obtain gets where
    gets: "sent' = sent @ gets" "\<forall>c \<in> set gets. is_get c" by blast
  from ret purge_after_scan [OF scan, of reason]
  obtain u where iss: "issue self sent' ?calls = (Inr u, sent'')" and c: "count = int (length to_delete)"
    by (auto split: prod.splits sum.splits)
  from issue_Inr [OF iss] have s'': "sent'' = sent' @ ?calls" .
  have all: "issued sent sent'' = gets @ ?calls"
    by (simp add: s'' gets(1))
  have b: "length (filter is_bulk (issued sent sent'')) =
           (if length to_delete mod 100 = 1 then length to_delete div 100
            else (length to_delete + 99) div 100)"
    using length_filter_bulk_chunks [of self reason "rev to_delete"]
    by (simp only: all filter_append filter_gets_bulk [OF gets(2)]) simp
  have s: "length (filter is_single (issued sent sent'')) =
           (if length to_delete mod 100 = 1 then 1 else 0)"
    using length_filter_single_chunks [of self reason "rev to_delete"]
    by (simp only: all filter_append filter_gets_single [OF gets(2)]) simp
  have m: "map length (chunks 100 (rev to_delete)) =
           replicate (length to_delete div 100) 100
             @ (if length to_delete mod 100 = 0 then [] else [length to_delete mod 100])"
    using map_length_chunks [of 100 "rev to_delete"] by simp
  show ?thesis
    using c b s m by (simp add: s'' concat_chunks length_chunks)
qed

theorem purge_batches_witness:
  "purge_scan 152 (example_channel [messages_down 150 51, messages_down 50 1] True) [] example_now 0 150
      None True None None None =
     Some (Inr (rev [1..150]), (history 150 None None None)\<lparr>h_last := Some 1, h_retrieved := 150\<rparr>,
           [Get_channel_messages 7 100 None None None, Get_channel_messages 7 50 None (Some 51) None])
   \<and> purge 152 (example_channel [messages_down 150 51, messages_down 50 1] True) [] example_now 0 150
      None True None None None None =
     Some (Inr 150,
           [Get_channel_messages 7 100 None None None, Get_channel_messages 7 50 None (Some 51) None,
            Bulk_delete_messages 7 [1..100] None, Bulk_delete_messages 7 [101..150] None])
   \<and> map length (chunks 100 (rev (rev [1..150]))) = [100, 50]
   \<and> length (filter is_bulk (issued []
        [Get_channel_messages 7 100 None None None, Get_channel_messages 7 50 None (Some 51) None,
         Bulk_delete_messages 7 [1..100] None, Bulk_delete_messages 7 [101..150] None])) = 2
   \<and> length (filter is_single (issued []
        [Get_channel_messages 7 100 None None None, Get_channel_messages 7 50 None (Some 51) None,
         Bulk_delete_messages 7 [1..100] None, Bulk_delete_messages 7 [101..150] None])) = 0"
  using purge_batches [OF scan150 purge150] scan150 purge150
  by (simp del: rev_rev_ident)

text \<open>
  Claim C4 as it was stated fails at \<open>N = 101\<close>: the batches are 100 and 1, and the
  batch of one goes to the single-message delete, so \<^verbatim>\<open>purge\<close> sends one bulk-delete
  request and not \<open>ceil(101/100) = 2\<close>.
\<close>

theorem purge_101_counterexample:
  "purge_scan 103 (example_channel [messages_down 101 2, messages_down 1 1] True) [] example_now 0 101
      None True None None None =
     Some (Inr (rev [1..101]), (history 101 None None None)\<lparr>h_last := Some 1, h_retrieved := 101\<rparr>,
           [Get_channel_messages 7 100 None None None, Get_channel_messages 7 1 None (Some 2) None])
   \<and> length (rev [1..101]) = 101
   \<and> purge 103 (example_channel [messages_down 101 2, messages_down 1 1] True) [] example_now 0 101
      None True None None None None =
     Some (Inr 101,
           [Get_channel_messages 7 100 None None None, Get_channel_messages 7 1 None (Some 2) None,
            Bulk_delete_messages 7 [1..100] None, Delete_message 7 101 None])
   \<and> length (filter is_bulk (issued []
        [Get_channel_messages 7 100 None None None, Get_channel_messages 7 1 None (Some 2) None,
         Bulk_delete_messages 7 [1..100] None, Delete_message 7 101 None])) = 1
   \<and> (101 + 99) div 100 = (2::nat)"
  unfolding purge_after_scan [OF scan101] issue101 using scan101 by (simp add: issued_def)

subsection \<open>C7: the count, and a delete request that fails\<close>

text \<open>
  Claim C7.  \<^verbatim>\<open>purge\<close> returns the number of identifiers accumulated by the scan, fixed
  before the first delete request.  The delete requests are sent one batch after the
  other; when the client raises on a batch, that exception is the outcome of \<^verbatim>\<open>purge\<close>,
  unchanged, the failing request is the last request sent (no later batch, no second
  attempt), and the batches completed before it hold fewer identifiers than the count
  that would have been returned.
\<close>

theorem purge_failed_batch:
  assumes scan: "purge_scan fuel self sent now deletion_limit search_limit predicate avoid_loading_msg
                   before after around = Some (Inr to_delete, it', sent')"
  shows "purge fuel self sent now deletion_limit search_limit predicate avoid_loading_msg
                   before after around reason =
           Some (case issue self sent' (map (delete_call self reason) (chunks 100 (rev to_delete))) of
                   (Inl e, s) \<Rightarrow> (Inl e, s)
                 | (Inr u, s) \<Rightarrow> (Inr (int (length to_delete)), s))
       \<and> (\<forall>e sent''.
            purge fuel self sent now deletion_limit search_limit predicate avoid_loading_msg
                   before after around reason = Some (Inl e, sent'') \<longrightarrow>
            (\<exists>j k. j < length (chunks 100 (rev to_delete))
                 \<and> e = HTTPError k
                 \<and> client_http self
                      (sent' @ map (delete_call self reason) (take j (chunks 100 (rev to_delete))))
                      (delete_call self reason (chunks 100 (rev to_delete) ! j)) = Inl k
                 \<and> sent'' = sent' @ map (delete_call self reason) (take (Suc j) (chunks 100 (rev to_delete)))
                 \<and> length (concat (take j (chunks 100 (rev to_delete)))) < length to_delete))"
proof (intro conjI allI impI)
  show "purge fuel self sent now deletion_limit search_limit predicate avoid_loading_msg
                   before after around reason =
           Some (case issue self sent' (map (delete_call self reason) (chunks 100 (rev to_delete))) of
                   (Inl e, s) \<Rightarrow> (Inl e, s)
                 | (Inr u, s) \<Rightarrow> (Inr (int (length to_delete)), s))"
    by (rule purge_after_scan [OF scan])
next
  fix e sent''
  let ?cs = "chunks 100 (rev to_delete)"
  let ?calls = "map (delete_call self reason) ?cs"
  assume "purge fuel self sent now deletion_limit search_limit predicate avoid_loading_msg
                   before after around reason = Some (Inl e, sent'')"
  with purge_after_scan [OF scan, of reason] have "issue self sent' ?calls = (Inl e, sent'')"
    by (auto split: prod.splits sum.splits)
  from issue_Inl [OF this] obtain j k where
    j: "j < length ?cs" and e: "e = HTTPError k" and s: "sent'' = sent' @ take (Suc j) ?calls"
    and f: "client_http self (sent' @ take j ?calls) (?calls ! j) = Inl k" by auto
  have "?cs = take j ?cs @ (?cs ! j) # drop (Suc j) ?cs"
    using j by (simp add: id_take_nth_drop)
  then have "concat ?cs = concat (take j ?cs) @ (?cs ! j) @ concat (drop (Suc j) ?cs)"
    by (metis concat.simps(2) concat_append)
  moreover have "0 < length (?cs ! j)"
    using chunks_bounds [of "?cs ! j" 100 "rev to_delete"] j by simp
  moreover have "length (concat ?cs) = length to_delete"
    by (simp add: concat_chunks)
  ultimately have less: "length (concat (take j ?cs)) < length to_delete"
    by (metis length_append less_add_same_cancel1 trans_less_add1)
  show "\<exists>j k. j < length ?cs
                 \<and> e = HTTPError k
                 \<and> client_http self (sent' @ map (delete_call self reason) (take j ?cs))
                      (delete_call self reason (?cs ! j)) = Inl k
                 \<and> sent'' = sent' @ map (delete_call self reason) (take (Suc j) ?cs)
                 \<and> length (concat (take j ?cs)) < length to_delete"
    using j e s f less by (intro exI [of _ j] exI [of _ k]) (simp add: take_map)
qed

theorem purge_failed_batch_witness:
  "purge_scan 5 (example_channel [[mk_message 2 1 {}, mk_message 1 1 {}]] False) [] example_now 0 100
      None True None None None =
     Some (Inr [2, 1], (history 100 None None None)\<lparr>h_last := Some 1, h_retrieved := 2\<rparr>,
           [Get_channel_messages 7 100 None None None, Get_channel_messages 7 98 None (Some 1) None])
   \<and> purge 5 (example_channel [[mk_message 2 1 {}, mk_message 1 1 {}]] False) [] example_now 0 100
      None True None None None None =
     Some (Inl (HTTPError 403),
           [Get_channel_messages 7 100 None None None, Get_channel_messages 7 98 None (Some 1) None,
            Bulk_delete_messages 7 [1, 2] None])
   \<and> (\<exists>j k. j < length (chunks 100 (rev [2, 1::int]))
         \<and> HTTPError 403 = HTTPError k
         \<and> client_http (example_channel [[mk_message 2 1 {}, mk_message 1 1 {}]] False)
              ([Get_channel_messages 7 100 None None None, Get_channel_messages 7 98 None (Some 1) None]
                 @ map (delete_call (example_channel [[mk_message 2 1 {}, mk_message 1 1 {}]] False) None)
                     (take j (chunks 100 (rev [2, 1]))))
              (delete_call (example_channel [[mk_message 2 1 {}, mk_message 1 1 {}]] False) None
                 (chunks 100 (rev [2, 1]) ! j)) = Inl k
         \<and> [Get_channel_messages 7 100 None None None, Get_channel_messages 7 98 None (Some 1) None,
            Bulk_delete_messages 7 [1, 2] None] =
           [Get_channel_messages 7 100 None None None, Get_channel_messages 7 98 None (Some 1) None]
             @ map (delete_call (example_channel [[mk_message 2 1 {}, mk_message 1 1 {}]] False) None)
                 (take (Suc j) (chunks 100 (rev [2, 1])))
         \<and> length (concat (take j (chunks 100 (rev [2, 1::int])))) < length [2, 1::int])"
proof -
  let ?E = "example_channel [[mk_message 2 1 {}, mk_message 1 1 {}]] False"
  let ?gets = "[Get_channel_messages 7 100 None None None, Get_channel_messages 7 98 None (Some 1) None]"
  note inst = purge_failed_batch [OF scan_fail, of None]
  have "issue ?E ?gets (map (delete_call ?E None) (chunks 100 (rev [2, 1]))) =
          (Inl (HTTPError 403), [Get_channel_messages 7 100 None None None,
             Get_channel_messages 7 98 None (Some 1) None, Bulk_delete_messages 7 [1, 2] None])"
    by (simp add: chunks_step delete_call_def example_defs)
  with inst [THEN conjunct1] have p: "purge 5 ?E [] example_now 0 100 None True None None None None =
     Some (Inl (HTTPError 403), [Get_channel_messages 7 100 None None None,
             Get_channel_messages 7 98 None (Some 1) None, Bulk_delete_messages 7 [1, 2] None])"
    by simp
  note ex = inst [THEN conjunct2, rule_format, OF p]
  show ?thesis
    by (rule conjI, rule scan_fail, rule conjI, rule p, rule ex)
qed

subsection \<open>C1: no message older than fourteen days is deleted\<close>

text \<open>
  Claim C1.  With the cutoff \<open>fourteen_days_ago now\<close>, that is
  \<open>((now - 1209600) * 1000 - DISCORD_EPOCH) << 22\<close>, every identifier in the accumulator
  at the end of the scan is at least the cutoff, and so is every identifier in every
  delete request that \<^verbatim>\<open>purge\<close> sends, whatever the predicate, the limits and the anchors.
  At the level of one iteration: when the iterator yields a message whose identifier is
  below the cutoff, the loop either stops there (the deletion limit was reached) or goes
  on with the accumulator as it was.
\<close>

theorem purge_never_deletes_old:
  "(purge_scan fuel self sent now deletion_limit search_limit predicate avoid_loading_msg
       before after around = Some (Inr to_delete, it', sent')
      \<longrightarrow> (\<forall>i \<in> set to_delete. fourteen_days_ago now \<le> i))
   \<and> (purge fuel self sent now deletion_limit search_limit predicate avoid_loading_msg
       before after around reason = Some (r, sent'')
      \<longrightarrow> (\<forall>c \<in> set (issued sent sent''). \<forall>i \<in> set (call_ids c). fourteen_days_ago now \<le> i))
   \<and> (anext self sent0 it0 = (Inr (Some message), it1, sent1)
       \<and> message_id message < fourteen_days_ago now
      \<longrightarrow> purge_loop (Suc n) self p deletion_limit avoid_loading_msg (fourteen_days_ago now)
            acc sent0 it0 =
          (if deletion_limit \<noteq> 0 \<and> int (length acc) = deletion_limit
           then Some (Inr acc, it1, sent1)
           else purge_loop n self p deletion_limit avoid_loading_msg (fourteen_days_ago now)
                  acc sent1 it1))"
proof (intro conjI impI)
  assume "anext self sent0 it0 = (Inr (Some message), it1, sent1)
       \<and> message_id message < fourteen_days_ago now"
  then show "purge_loop (Suc n) self p deletion_limit avoid_loading_msg (fourteen_days_ago now)
            acc sent0 it0 =
          (if deletion_limit \<noteq> 0 \<and> int (length acc) = deletion_limit
           then Some (Inr acc, it1, sent1)
           else purge_loop n self p deletion_limit avoid_loading_msg (fourteen_days_ago now)
                  acc sent1 it1)"
    by (simp add: purge_loop_step selected_def)
next
  assume "purge_scan fuel self sent now deletion_limit search_limit predicate avoid_loading_msg
       before after around = Some (Inr to_delete, it', sent')"
  then show "\<forall>i \<in> set to_delete. fourteen_days_ago now \<le> i"
    unfolding purge_scan_def Let_def by (rule purge_loop_cutoff) simp
next
  assume p: "purge fuel self sent now deletion_limit search_limit predicate avoid_loading_msg
       before after around reason = Some (r, sent'')"
  then obtain a it1 sent1 where scan: "purge_scan fuel self sent now deletion_limit search_limit
       predicate avoid_loading_msg before after around = Some (a, it1, sent1)"
    by (auto simp: purge_def split: option.splits)
  from purge_scan_sent [OF scan] obtain gets where
    gets: "sent1 = sent @ gets" "\<forall>c \<in> set gets. is_get c" by blast
  have noids: "\<And>c. c \<in> set gets \<Longrightarrow> call_ids c = []"
    using gets(2) by (simp add: is_get_call_ids)
  show "\<forall>c \<in> set (issued sent sent''). \<forall>i \<in> set (call_ids c). fourteen_days_ago now \<le> i"
  proof (cases a)
    case (Inl e)
    with p scan have "sent'' = sent1" by (simp add: purge_def)
    with gets noids show ?thesis by auto
  next
    case (Inr td)
    from scan have scan': "purge_scan fuel self sent now deletion_limit search_limit
       predicate avoid_loading_msg before after around = Some (Inr td, it1, sent1)"
      by (simp add: Inr)
    then have old: "\<forall>i \<in> set td. fourteen_days_ago now \<le> i"
      unfolding purge_scan_def Let_def by (rule purge_loop_cutoff) simp
    from p purge_after_scan [OF scan', of reason]
    obtain r' where "issue self sent1 (map (delete_call self reason) (chunks 100 (rev td))) = (r', sent'')"
      by (auto split: prod.splits sum.splits)
    from issue_prefix [OF this] obtain j where
      j: "sent'' = sent1 @ take j (map (delete_call self reason) (chunks 100 (rev td)))" by blast
    have "issued sent sent'' = gets @ take j (map (delete_call self reason) (chunks 100 (rev td)))"
      by (simp add: j gets(1))
    with noids old show ?thesis
      by (auto dest: issued_ids_of_batches)
  qed
qed

theorem purge_never_deletes_old_witness:
  "purge_scan 5 (example_channel [[mk_message 5000000000 1 {}, mk_message 7 1 {}]] True) []
      example_later 0 100 None True None None None =
     Some (Inr [5000000000], (history 100 None None None)\<lparr>h_last := Some 7, h_retrieved := 2\<rparr>,
           [Get_channel_messages 7 100 None None None, Get_channel_messages 7 98 None (Some 7) None])
   \<and> fourteen_days_ago example_later \<le> 5000000000
   \<and> purge 5 (example_channel [[mk_message 5000000000 1 {}, mk_message 7 1 {}]] True) []
      example_later 0 100 None True None None None None =
     Some (Inr 1, [Get_channel_messages 7 100 None None None,
                   Get_channel_messages 7 98 None (Some 7) None, Delete_message 7 5000000000 None])
   \<and> concat (map call_ids (issued [] [Get_channel_messages 7 100 None None None,
                   Get_channel_messages 7 98 None (Some 7) None, Delete_message 7 5000000000 None])) =
       [5000000000]
   \<and> fourteen_days_ago example_later = 4194304000
   \<and> anext (example_channel [[mk_message 5000000000 1 {}, mk_message 7 1 {}]] True)
        [Get_channel_messages 7 100 None None None]
        ((history 100 None None None)
           \<lparr>h_last := Some 5000000000, h_queue := [mk_message 7 1 {}], h_retrieved := 1\<rparr>) =
       (Inr (Some (mk_message 7 1 {})),
        (history 100 None None None)\<lparr>h_last := Some 7, h_retrieved := 2\<rparr>,
        [Get_channel_messages 7 100 None None None])
   \<and> message_id (mk_message 7 1 {}) < fourteen_days_ago example_later
   \<and> purge_loop (Suc 1) (example_channel [[mk_message 5000000000 1 {}, mk_message 7 1 {}]] True)
        (\<lambda>m. True) 0 True (fourteen_days_ago example_later) [5000000000]
        [Get_channel_messages 7 100 None None None]
        ((history 100 None None None)
           \<lparr>h_last := Some 5000000000, h_queue := [mk_message 7 1 {}], h_retrieved := 1\<rparr>) =
       Some (Inr [5000000000], (history 100 None None None)\<lparr>h_last := Some 7, h_retrieved := 2\<rparr>,
             [Get_channel_messages 7 100 None None None, Get_channel_messages 7 98 None (Some 7) None])"
proof -
  let ?E = "example_channel [[mk_message 5000000000 1 {}, mk_message 7 1 {}]] True"
  let ?gets = "[Get_channel_messages 7 100 None None None, Get_channel_messages 7 98 None (Some 7) None]"
  let ?it0 = "(history 100 None None None)
           \<lparr>h_last := Some 5000000000, h_queue := [mk_message 7 1 {}], h_retrieved := 1\<rparr>"
  let ?it1 = "(history 100 None None None)\<lparr>h_last := Some 7, h_retrieved := 2\<rparr>"
  have c: "fourteen_days_ago example_later = 4194304000"
    by (simp add: cutoff_later_defs)
  have "issue ?E ?gets (map (delete_call ?E None) (chunks 100 (rev [5000000000]))) =
          (Inr (), [Get_channel_messages 7 100 None None None,
                   Get_channel_messages 7 98 None (Some 7) None, Delete_message 7 5000000000 None])"
    by (simp add: chunks_step delete_call_def example_defs)
  with purge_after_scan [OF scan_old, of None]
  have p: "purge 5 ?E [] example_later 0 100 None True None None None None =
     Some (Inr 1, [Get_channel_messages 7 100 None None None,
                   Get_channel_messages 7 98 None (Some 7) None, Delete_message 7 5000000000 None])"
    by simp
  have nx: "anext ?E [Get_channel_messages 7 100 None None None] ?it0 =
              (Inr (Some (mk_message 7 1 {})), ?it1, [Get_channel_messages 7 100 None None None])"
    by (simp add: reading_defs example_defs)
  have old: "message_id (mk_message 7 1 {}) < fourteen_days_ago example_later"
    by (simp add: c mk_message_def)
  have rest: "purge_loop 1 ?E (\<lambda>m. True) 0 True (fourteen_days_ago example_later) [5000000000]
                [Get_channel_messages 7 100 None None None] ?it1 =
              Some (Inr [5000000000], ?it1, ?gets)"
    by (simp add: reading_defs example_defs)
  note a = purge_never_deletes_old [THEN conjunct1, THEN mp, OF scan_old]
  note b = purge_never_deletes_old [THEN conjunct2, THEN conjunct1, THEN mp, OF p]
  note d = purge_never_deletes_old [THEN conjunct2, THEN conjunct2, THEN mp, OF conjI [OF nx old],
      of 1 "\<lambda>m. True" 0 True "[5000000000]"]
  have e: "purge_loop (Suc 1) ?E (\<lambda>m. True) 0 True (fourteen_days_ago example_later) [5000000000]
                [Get_channel_messages 7 100 None None None] ?it0 =
              Some (Inr [5000000000], ?it1, ?gets)"
    using d rest by simp
  have a': "fourteen_days_ago example_later \<le> 5000000000"
    using a b by (simp add: issued_def)
  have b': "concat (map call_ids (issued [] [Get_channel_messages 7 100 None None None,
                   Get_channel_messages 7 98 None (Some 7) None, Delete_message 7 5000000000 None])) =
       [5000000000]"
    by (simp add: issued_def)
  show ?thesis
    by (rule conjI, rule scan_old, rule conjI, rule a', rule conjI, rule p, rule conjI, rule b',
        rule conjI, rule c, rule conjI, rule nx, rule conjI, rule old, rule e)
qed

subsection \<open>C9: loading messages of the bot are skipped\<close>



subsection \<open>C6: the mode \<^verbatim>\<open>around\<close> fetches one page\<close>




subsection \<open>C5: the deletion limit caps the accumulator\<close>

text \<open>
  Claim C5, as amended.  With a positive \<^verbatim>\<open>deletion_limit\<close> the accumulator at the end of
  the scan has at most that many entries.  At every iteration that starts within the
  limit, the loop stops at the message the iterator yields (which it does not examine)
  when the accumulator has reached the limit, and otherwise goes on with an accumulator
  that is still within the limit.  With \<^verbatim>\<open>deletion_limit\<close> \<open>0\<close> the scan is the whole
  sequence of the iterator: it ends when and as the iterator does, with the same requests
  and the same exception if there is one, and the accumulator holds every message of the
  sequence that passes the three tests.  The iterator is exhausted, when \<^verbatim>\<open>around\<close> is
  not in force, once \<^verbatim>\<open>search_limit\<close> messages have been yielded or a fetch has returned
  an empty page; when \<^verbatim>\<open>around\<close> is in force, once the messages of its single page have
  been yielded (or at once, without a request, when the limit allows no fetch).
\<close>

theorem purge_deletion_limit:
  "(0 < deletion_limit
      \<and> purge_scan fuel self sent now deletion_limit search_limit predicate avoid_loading_msg
            before after around = Some (Inr to_delete, it', sent')
     \<longrightarrow> int (length to_delete) \<le> deletion_limit)
   \<and> (0 < deletion_limit \<and> int (length acc) \<le> deletion_limit
      \<and> anext self sent0 it0 = (Inr (Some message), it1, sent1)
     \<longrightarrow> purge_loop (Suc n) self p deletion_limit avoid_loading_msg cutoff acc sent0 it0 =
          (if int (length acc) = deletion_limit then Some (Inr acc, it1, sent1)
           else purge_loop n self p deletion_limit avoid_loading_msg cutoff
                  (if selected self p avoid_loading_msg cutoff message
                   then acc @ [message_id message] else acc) sent1 it1)
        \<and> (int (length acc) = deletion_limit
           \<or> int (length (if selected self p avoid_loading_msg cutoff message
                           then acc @ [message_id message] else acc)) \<le> deletion_limit))
   \<and> purge_scan fuel self sent now 0 search_limit predicate avoid_loading_msg before after around =
       (case flatten fuel self sent (history search_limit before after around) of
          None \<Rightarrow> None
        | Some (Inl e, it2, sent2) \<Rightarrow> Some (Inl e, it2, sent2)
        | Some (Inr ms, it2, sent2) \<Rightarrow>
            Some (Inr (map message_id
                    (filter (selected self (case predicate of None \<Rightarrow> (\<lambda>m. True) | Some q \<Rightarrow> q)
                               avoid_loading_msg (fourteen_days_ago now)) ms)), it2, sent2))
   \<and> ((truthy after \<or> \<not> truthy around)
      \<and> flatten fuel self sent (history search_limit before after around) = Some (Inr yielded, it3, sent3)
     \<longrightarrow> (search_limit \<noteq> 0 \<and> search_limit \<le> int (length yielded))
        \<or> (\<exists>s i. fetch self s i = (Inr [], it3, sent3)))
   \<and> (truthy around \<and> \<not> truthy after
      \<and> flatten fuel self sent (history search_limit before after around) = Some (Inr yielded, it3, sent3)
     \<longrightarrow> (yielded = [] \<and> sent3 = sent)
        \<or> (sent3 = sent @ [Get_channel_messages (self_id self)
                              (get_limit (history search_limit before after around)) around None None]
           \<and> (\<exists>page. client_http self sent
                         (Get_channel_messages (self_id self)
                            (get_limit (history search_limit before after around)) around None None) =
                       Inr page
                     \<and> yielded = map (cache_place_message_data self) page)))"
proof -
  let ?it = "history search_limit before after around"
  let ?G = "Get_channel_messages (self_id self) (get_limit ?it) around None None"
  have st: "h_queue ?it = []" "h_retrieved ?it = 0" "h_limit ?it = search_limit"
    "h_after ?it = after" "h_around ?it = around"
    by (simp_all add: history_def)
  have c1: "int (length to_delete) \<le> deletion_limit"
    if a: "0 < deletion_limit
      \<and> purge_scan fuel self sent now deletion_limit search_limit predicate avoid_loading_msg
            before after around = Some (Inr to_delete, it', sent')"
  proof -
    from a have "purge_loop fuel self (case predicate of None \<Rightarrow> (\<lambda>m. True) | Some q \<Rightarrow> q)
        deletion_limit avoid_loading_msg (fourteen_days_ago now) [] sent ?it = Some (Inr to_delete, it', sent')"
      by (simp add: purge_scan_def)
    then show ?thesis
      by (rule purge_loop_length) (use a in simp_all)
  qed
  have c2: "purge_loop (Suc n) self p deletion_limit avoid_loading_msg cutoff acc sent0 it0 =
          (if int (length acc) = deletion_limit then Some (Inr acc, it1, sent1)
           else purge_loop n self p deletion_limit avoid_loading_msg cutoff
                  (if selected self p avoid_loading_msg cutoff message
                   then acc @ [message_id message] else acc) sent1 it1)
        \<and> (int (length acc) = deletion_limit
           \<or> int (length (if selected self p avoid_loading_msg cutoff message
                           then acc @ [message_id message] else acc)) \<le> deletion_limit)"
    if a: "0 < deletion_limit \<and> int (length acc) \<le> deletion_limit
      \<and> anext self sent0 it0 = (Inr (Some message), it1, sent1)"
  proof -
    from a have an: "anext self sent0 it0 = (Inr (Some message), it1, sent1)" by simp
    from a show ?thesis
      unfolding purge_loop_step [OF an] by auto
  qed
  have c3: "purge_scan fuel self sent now 0 search_limit predicate avoid_loading_msg before after around =
       (case flatten fuel self sent ?it of
          None \<Rightarrow> None
        | Some (Inl e, it2, sent2) \<Rightarrow> Some (Inl e, it2, sent2)
        | Some (Inr ms, it2, sent2) \<Rightarrow>
            Some (Inr (map message_id
                    (filter (selected self (case predicate of None \<Rightarrow> (\<lambda>m. True) | Some q \<Rightarrow> q)
                               avoid_loading_msg (fourteen_days_ago now)) ms)), it2, sent2))"
    unfolding purge_scan_def Let_def purge_loop_flatten
    by (simp split: option.splits sum.splits prod.splits)
  have c4: "(search_limit \<noteq> 0 \<and> search_limit \<le> int (length yielded))
        \<or> (\<exists>s i. fetch self s i = (Inr [], it3, sent3))"
    if a: "(truthy after \<or> \<not> truthy around)
      \<and> flatten fuel self sent ?it = Some (Inr yielded, it3, sent3)"
  proof -
    from a have fl: "flatten fuel self sent ?it = Some (Inr yielded, it3, sent3)" by simp
    from a have "truthy (h_after ?it) \<or> \<not> truthy (h_around ?it)" by (simp add: st)
    from flatten_keeps [OF fl this] have l: "h_limit it3 = search_limit" by (simp add: st)
    from flatten_end [OF fl] have "h_retrieved it3 = length yielded"
      and "(h_limit it3 \<noteq> 0 \<and> h_limit it3 \<le> int (h_retrieved it3))
        \<or> (\<exists>s i. fetch self s i = (Inr [], it3, sent3))"
      by (auto simp: st)
    with l show ?thesis by auto
  qed
  have c5: "(yielded = [] \<and> sent3 = sent)
        \<or> (sent3 = sent @ [?G]
           \<and> (\<exists>page. client_http self sent ?G = Inr page
                     \<and> yielded = map (cache_place_message_data self) page))"
    if a: "truthy around \<and> \<not> truthy after
      \<and> flatten fuel self sent ?it = Some (Inr yielded, it3, sent3)"
  proof -
    from a have fl: "flatten fuel self sent ?it = Some (Inr yielded, it3, sent3)" by simp
    have "truthy (h_around ?it)" "\<not> truthy (h_after ?it)" using a by (simp_all add: st)
    from flatten_around [OF this st(1,2) fl] show ?thesis
      by (auto simp: st split: sum.splits)
  qed
  show ?thesis
    by (rule conjI, rule impI, erule c1, rule conjI, rule impI, erule c2,
        rule conjI, rule c3, rule conjI, rule impI, erule c4, rule impI, erule c5)
qed

theorem purge_deletion_limit_witness:
  "purge_scan 5 (example_channel [[mk_message 3 42 {LOADING}, mk_message 2 1 {}, mk_message 1 1 {}]] True) []
      example_now 1 100 None True None None None =
     Some (Inr [2], (history 100 None None None)\<lparr>h_last := Some 1, h_retrieved := 3\<rparr>,
           [Get_channel_messages 7 100 None None None])
   \<and> int (length [2::int]) \<le> 1
   \<and> anext (example_channel [[mk_message 3 42 {LOADING}, mk_message 2 1 {}, mk_message 1 1 {}]] True)
        [Get_channel_messages 7 100 None None None]
        ((history 100 None None None)
           \<lparr>h_last := Some 2, h_queue := [mk_message 1 1 {}], h_retrieved := 2\<rparr>) =
       (Inr (Some (mk_message 1 1 {})),
        (history 100 None None None)\<lparr>h_last := Some 1, h_retrieved := 3\<rparr>,
        [Get_channel_messages 7 100 None None None])
   \<and> purge_loop (Suc 0)
        (example_channel [[mk_message 3 42 {LOADING}, mk_message 2 1 {}, mk_message 1 1 {}]] True)
        (\<lambda>m. True) 1 True 0 [2] [Get_channel_messages 7 100 None None None]
        ((history 100 None None None)
           \<lparr>h_last := Some 2, h_queue := [mk_message 1 1 {}], h_retrieved := 2\<rparr>) =
       Some (Inr [2], (history 100 None None None)\<lparr>h_last := Some 1, h_retrieved := 3\<rparr>,
             [Get_channel_messages 7 100 None None None])
   \<and> purge_scan 5 (example_channel [[mk_message 3 42 {LOADING}, mk_message 2 1 {}, mk_message 1 1 {}]] True)
        [] example_now 0 100 None True None None None =
       Some (Inr [2, 1], (history 100 None None None)\<lparr>h_last := Some 1, h_retrieved := 3\<rparr>,
             [Get_channel_messages 7 100 None None None, Get_channel_messages 7 97 None (Some 1) None])
   \<and> flatten 5 (example_channel [[mk_message 3 42 {LOADING}, mk_message 2 1 {}, mk_message 1 1 {}]] True) []
        (history 100 None None None) =
       Some (Inr [mk_message 3 42 {LOADING}, mk_message 2 1 {}, mk_message 1 1 {}],
             (history 100 None None None)\<lparr>h_last := Some 1, h_retrieved := 3\<rparr>,
             [Get_channel_messages 7 100 None None None, Get_channel_messages 7 97 None (Some 1) None])
   \<and> (\<exists>s i. fetch (example_channel [[mk_message 3 42 {LOADING}, mk_message 2 1 {}, mk_message 1 1 {}]] True)
               s i =
             (Inr [], (history 100 None None None)\<lparr>h_last := Some 1, h_retrieved := 3\<rparr>,
              [Get_channel_messages 7 100 None None None, Get_channel_messages 7 97 None (Some 1) None]))
   \<and> flatten 4 (example_channel [[mk_message 3 1 {}, mk_message 2 1 {}], [mk_message 1 1 {}]] True) []
        (history 2 None None None) =
       Some (Inr [mk_message 3 1 {}, mk_message 2 1 {}],
             (history 2 None None None)\<lparr>h_last := Some 2, h_retrieved := 2\<rparr>,
             [Get_channel_messages 7 2 None None None])
   \<and> (2::int) \<le> int (length [mk_message 3 1 {}, mk_message 2 1 {}])
   \<and> flatten 5 (example_channel [[mk_message 9 1 {}, mk_message 8 1 {}, mk_message 7 1 {}]] True) []
        (history 0 None None (Some 8)) =
       Some (Inr [mk_message 9 1 {}, mk_message 8 1 {}, mk_message 7 1 {}],
             (history 0 None None (Some 8))\<lparr>h_limit := 1, h_last := Some 7, h_retrieved := 3\<rparr>,
             [Get_channel_messages 7 100 (Some 8) None None])
   \<and> (\<exists>page. client_http
                (example_channel [[mk_message 9 1 {}, mk_message 8 1 {}, mk_message 7 1 {}]] True) []
                (Get_channel_messages 7 100 (Some 8) None None) = Inr page
             \<and> [mk_message 9 1 {}, mk_message 8 1 {}, mk_message 7 1 {}] =
                 map (cache_place_message_data
                        (example_channel [[mk_message 9 1 {}, mk_message 8 1 {}, mk_message 7 1 {}]] True))
                   page)"
proof -
  let ?L = "example_channel [[mk_message 3 42 {LOADING}, mk_message 2 1 {}, mk_message 1 1 {}]] True"
  let ?G = "Get_channel_messages 7 100 None None None"
  let ?it0 = "(history 100 None None None)
           \<lparr>h_last := Some 2, h_queue := [mk_message 1 1 {}], h_retrieved := 2\<rparr>"
  let ?end = "(history 100 None None None)\<lparr>h_last := Some 1, h_retrieved := 3\<rparr>"
  let ?A = "example_channel [[mk_message 9 1 {}, mk_message 8 1 {}, mk_message 7 1 {}]] True"
  have h1: "0 < (1::int) \<and> purge_scan 5 ?L [] example_now 1 100 None True None None None =
              Some (Inr [2], ?end, [?G])"
    using scan_loading by simp
  note a = purge_deletion_limit [THEN conjunct1, THEN mp, OF h1]
  have nx: "anext ?L [?G] ?it0 = (Inr (Some (mk_message 1 1 {})), ?end, [?G])"
    by (simp add: reading_defs example_defs)
  have h2: "0 < (1::int) \<and> int (length [2::int]) \<le> 1
             \<and> anext ?L [?G] ?it0 = (Inr (Some (mk_message 1 1 {})), ?end, [?G])"
    using nx by simp
  note s2 = purge_deletion_limit [THEN conjunct2, THEN conjunct1, THEN mp, OF h2,
      of 0 "\<lambda>m. True" True 0]
  have b: "purge_loop (Suc 0) ?L (\<lambda>m. True) 1 True 0 [2] [?G] ?it0 = Some (Inr [2], ?end, [?G])"
    using s2 by simp
  note s3 = purge_deletion_limit [THEN conjunct2, THEN conjunct2, THEN conjunct1,
      of 5 ?L "[]" example_now 100 None True None None None]
  have c: "purge_scan 5 ?L [] example_now 0 100 None True None None None =
             Some (Inr [2, 1], ?end, [?G, Get_channel_messages 7 97 None (Some 1) None])"
    unfolding s3 flatten_loading by (simp add: selected_def example_defs cutoff_defs)
  have h4: "(truthy None \<or> \<not> truthy None) \<and> flatten 5 ?L [] (history 100 None None None) =
       Some (Inr [mk_message 3 42 {LOADING}, mk_message 2 1 {}, mk_message 1 1 {}], ?end,
             [?G, Get_channel_messages 7 97 None (Some 1) None])"
    using flatten_loading by (simp add: truthy_def)
  note s4 = purge_deletion_limit [THEN conjunct2, THEN conjunct2, THEN conjunct2, THEN conjunct1,
      THEN mp, OF h4]
  have d: "\<exists>s i. fetch ?L s i = (Inr [], ?end, [?G, Get_channel_messages 7 97 None (Some 1) None])"
    using s4 by simp
  have h4': "(truthy None \<or> \<not> truthy None)
     \<and> flatten 4 (example_channel [[mk_message 3 1 {}, mk_message 2 1 {}], [mk_message 1 1 {}]] True) []
        (history 2 None None None) =
       Some (Inr [mk_message 3 1 {}, mk_message 2 1 {}],
             (history 2 None None None)\<lparr>h_last := Some 2, h_retrieved := 2\<rparr>,
             [Get_channel_messages 7 2 None None None])"
    using flatten_limit_run by (simp add: truthy_def)
  note s4' = purge_deletion_limit [THEN conjunct2, THEN conjunct2, THEN conjunct2, THEN conjunct1,
      THEN mp, OF h4']
  have e: "(2::int) \<le> int (length [mk_message 3 1 {}, mk_message 2 1 {}])"
    using s4' by simp
  have h5: "truthy (Some 8) \<and> \<not> truthy None \<and> flatten 5 ?A [] (history 0 None None (Some 8)) =
       Some (Inr [mk_message 9 1 {}, mk_message 8 1 {}, mk_message 7 1 {}],
             (history 0 None None (Some 8))\<lparr>h_limit := 1, h_last := Some 7, h_retrieved := 3\<rparr>,
             [Get_channel_messages 7 100 (Some 8) None None])"
    using flatten_around_run by (simp add: truthy_def)
  note s5 = purge_deletion_limit [THEN conjunct2, THEN conjunct2, THEN conjunct2, THEN conjunct2,
      THEN mp, OF h5]
  have f: "\<exists>page. client_http ?A [] (Get_channel_messages 7 100 (Some 8) None None) = Inr page
             \<and> [mk_message 9 1 {}, mk_message 8 1 {}, mk_message 7 1 {}] =
                 map (cache_place_message_data ?A) page"
    using s5 by (simp add: get_limit_def history_def example_channel_def)
  show ?thesis
    by (rule conjI, rule scan_loading, rule conjI, rule a, rule conjI, rule nx, rule conjI, rule b,
        rule conjI, rule c, rule conjI, rule flatten_loading, rule conjI, rule d,
        rule conjI, rule flatten_limit_run, rule conjI, rule e, rule conjI, rule flatten_around_run,
        rule f)
qed

text \<open>
  Claim C5 as it was stated fails when \<^verbatim>\<open>around\<close> is in force: with
  \<^verbatim>\<open>search_limit\<close> 150 and \<^verbatim>\<open>deletion_limit\<close> \<open>0\<close> the scan ends after the one page of
  100 messages, although fewer than 150 messages have been examined and the channel still
  has fifty older messages, which the client would return on a further fetch.
\<close>

theorem purge_around_counterexample:
  "purge_scan 102 (example_channel [messages_down 150 51, messages_down 50 1] True) [] example_now 0 150
      None True None None (Some 100) =
     Some (Inr (rev [51..150]),
           (history 150 None None (Some 100))\<lparr>h_limit := 1, h_last := Some 51, h_retrieved := 100\<rparr>,
           [Get_channel_messages 7 100 (Some 100) None None])
   \<and> h_retrieved ((history 150 None None (Some 100))
         \<lparr>h_limit := 1, h_last := Some 51, h_retrieved := 100\<rparr>) = 100
   \<and> (100::int) < 150
   \<and> client_http (example_channel [messages_down 150 51, messages_down 50 1] True)
        [Get_channel_messages 7 100 (Some 100) None None]
        (Get_channel_messages 7 50 None (Some 51) None) = Inr (messages_down 50 1)
   \<and> length (messages_down 50 1) = 50"
  using scan_around_page
  by (simp add: history_def example_channel_def paged_http_def messages_down_def)

end
